theory Spec2Isabelle
  imports Main "HOL-Library.Word"
begin

section \<open>netbuffer: big-endian values in a byte buffer\<close>

type_synonym byte = "8 word"
type_synonym Buffer = "byte list"
type_synonym u16string = "16 word list"

text \<open>
  \<open>toNetworkEndian\<close> and \<open>fromNetworkEndian\<close> turn the \<open>sizeof(T)\<close> bytes of a
  primitive into network (big-endian) order and back, for the sizes 1, 2, 4 and 8; a
  16-byte \<open>uint128_t\<close> has each 8-byte half converted on its own, \<open>upper\<close> first. The
  template parameter \<open>T\<close> is represented by its size in bytes, a value of \<open>T\<close> by the
  number its bytes denote.
\<close>

fun toNetworkEndian :: "nat \<Rightarrow> nat \<Rightarrow> byte list" where
  "toNetworkEndian 0 v = []"
| "toNetworkEndian (Suc n) v = toNetworkEndian n (v div 256) @ [of_nat (v mod 256)]"

definition fromNetworkEndian :: "byte list \<Rightarrow> nat" where
  "fromNetworkEndian bs = foldl (\<lambda>acc b. acc * 256 + unat b) 0 bs"

text \<open>
  \<open>pushBackVal(val, buff)\<close> appends the bytes of \<open>val\<close> and returns \<open>sizeof(T)\<close>;
  \<open>pushBackVal(val, buff, index)\<close> copies them over the bytes at \<open>index\<close> (the callers
  reserve those bytes first).
\<close>

definition pushBackVal :: "nat \<Rightarrow> nat \<Rightarrow> Buffer \<Rightarrow> 32 word \<times> Buffer" where
  "pushBackVal sz v buff = (of_nat sz, buff @ toNetworkEndian sz v)"

definition pushBackVal_at :: "nat \<Rightarrow> nat \<Rightarrow> Buffer \<Rightarrow> nat \<Rightarrow> 32 word \<times> Buffer" where
  "pushBackVal_at sz v buff index =
     (of_nat sz, take index buff @ toNetworkEndian sz v @ drop (index + sz) buff)"

text \<open>The idiom \<open>total_length += push(..., buff)\<close> on the pair of both variables.\<close>

definition add_length :: "(Buffer \<Rightarrow> 32 word \<times> Buffer) \<Rightarrow> 32 word \<times> Buffer \<Rightarrow> 32 word \<times> Buffer" where
  "add_length push s = (let (n, buff') = push (snd s) in (fst s + n, buff'))"

definition pushBackUTF16 :: "u16string \<Rightarrow> Buffer \<Rightarrow> 32 word \<times> Buffer" where
  "pushBackUTF16 str buff =
     fold (\<lambda>c. add_length (pushBackVal 2 (unat c))) str (0, buff)"

definition pushBackSizedUTF16 :: "u16string \<Rightarrow> Buffer \<Rightarrow> 32 word \<times> Buffer" where
  "pushBackSizedUTF16 str buff =
     (let string_len = (of_nat (length str * 2) :: 32 word);
          s = add_length (pushBackVal 4 (unat string_len)) (0, buff)
      in fold (\<lambda>c. add_length (pushBackVal 2 (unat c))) str s)"

definition pushSizedContainer :: "byte list \<Rightarrow> Buffer \<Rightarrow> 32 word \<times> Buffer" where
  "pushSizedContainer container buff =
     (let container_len = (of_nat (length container * 1) :: 32 word);
          s = add_length (pushBackVal 4 (unat container_len)) (0, buff)
      in fold (\<lambda>c. add_length (pushBackVal 1 (unat c))) container s)"

text \<open>
  The free function \<open>readPrimitive<T>(buff, index)\<close>: the value stays 0 when the
  buffer does not hold \<open>sizeof(T)\<close> bytes at \<open>index\<close>.
\<close>

definition readPrimitive_at :: "nat \<Rightarrow> Buffer \<Rightarrow> nat \<Rightarrow> nat" where
  "readPrimitive_at sz buff index =
     (if index + (sz - 1) < length buff
      then fromNetworkEndian (take sz (drop index buff)) else 0)"

subsection \<open>BuffReader\<close>

text \<open>
  The reader keeps an iterator \<open>buff_i\<close> into the buffer (here its offset), the flag
  \<open>_out_of_range\<close> and the \<open>unsigned int cur_index\<close>. The bound check of a read uses
  \<open>cur_index\<close>, the bytes are taken at \<open>buff_i\<close>. The buffer is held by reference and
  never written by the reader, so it is an argument of every read. The sum
  \<open>cur_index + sizeof(T)\<close> of the bound check is computed in \<open>size_t\<close>, taken to be
  64 bits wide, so it does not wrap; \<open>cur_index += sizeof(T)\<close> does, at \<open>2 ^ 32\<close>.
\<close>

record BuffReader =
  buff_i :: nat
  out_of_range :: bool
  cur_index :: "32 word"

definition BuffReader_new :: BuffReader where
  "BuffReader_new = \<lparr>buff_i = 0, out_of_range = False, cur_index = 0\<rparr>"

definition outOfRange :: "BuffReader \<Rightarrow> bool" where
  "outOfRange r = out_of_range r"

definition readPrimitive :: "nat \<Rightarrow> Buffer \<Rightarrow> BuffReader \<Rightarrow> nat \<times> BuffReader" where
  "readPrimitive sz buff r =
     (if unat (cur_index r) + sz \<le> length buff
      then (fromNetworkEndian (take sz (drop (buff_i r) buff)),
            r\<lparr>cur_index := cur_index r + of_nat sz, buff_i := buff_i r + sz\<rparr>)
      else (0, r\<lparr>out_of_range := True\<rparr>))"

text \<open>
  The instances of the template that the decoders use. An \<open>int64_t\<close> (\<open>grail_time\<close>,
  \<open>Timestamp\<close>) is read as its 64 bits, a \<open>float\<close> as its 32 bits, a \<open>MessageID\<close> as
  its byte.
\<close>

definition readPrimitive_uint8_t :: "Buffer \<Rightarrow> BuffReader \<Rightarrow> 8 word \<times> BuffReader" where
  "readPrimitive_uint8_t buff r = (let (v, r') = readPrimitive 1 buff r in (of_nat v, r'))"

definition readPrimitive_char16_t :: "Buffer \<Rightarrow> BuffReader \<Rightarrow> 16 word \<times> BuffReader" where
  "readPrimitive_char16_t buff r = (let (v, r') = readPrimitive 2 buff r in (of_nat v, r'))"

definition readPrimitive_uint32_t :: "Buffer \<Rightarrow> BuffReader \<Rightarrow> 32 word \<times> BuffReader" where
  "readPrimitive_uint32_t buff r = (let (v, r') = readPrimitive 4 buff r in (of_nat v, r'))"

definition readPrimitive_uint64_t :: "Buffer \<Rightarrow> BuffReader \<Rightarrow> 64 word \<times> BuffReader" where
  "readPrimitive_uint64_t buff r = (let (v, r') = readPrimitive 8 buff r in (of_nat v, r'))"

text \<open>\<open>uint128_t\<close> is the struct of \<open>upper\<close> and \<open>lower\<close>, 16 bytes, \<open>upper\<close> first.\<close>

record uint128_t =
  upper :: "64 word"
  lower :: "64 word"

definition readPrimitive_uint128_t :: "Buffer \<Rightarrow> BuffReader \<Rightarrow> uint128_t \<times> BuffReader" where
  "readPrimitive_uint128_t buff r =
     (let (v, r') = readPrimitive 16 buff r
      in (\<lparr>upper = of_nat (v div 2 ^ 64), lower = of_nat v\<rparr>, r'))"

text \<open>
  \<open>readSizedUTF16\<close>: a \<open>uint32_t\<close> byte length, halved, then that many
  \<open>char16_t\<close> reads, each pushed onto the string whether it succeeded or not.
\<close>

primrec readUTF16 :: "nat \<Rightarrow> Buffer \<Rightarrow> BuffReader \<Rightarrow> u16string \<times> BuffReader" where
  "readUTF16 0 buff r = ([], r)"
| "readUTF16 (Suc n) buff r =
     (let (c, r') = readPrimitive_char16_t buff r;
          (str, r'') = readUTF16 n buff r'
      in (c # str, r''))"

definition readSizedUTF16 :: "Buffer \<Rightarrow> BuffReader \<Rightarrow> u16string \<times> BuffReader" where
  "readSizedUTF16 buff r =
     (let (len, r') = readPrimitive_uint32_t buff r;
          size = len div 2
      in readUTF16 (unat size) buff r')"

text \<open>
  \<open>readSizedVector<uint8_t>\<close>: the loop stops at the declared size or as soon as the
  buffer holds no further element.
\<close>

primrec readSizedVector_loop :: "nat \<Rightarrow> Buffer \<Rightarrow> BuffReader \<Rightarrow> byte list \<times> BuffReader" where
  "readSizedVector_loop 0 buff r = ([], r)"
| "readSizedVector_loop (Suc n) buff r =
     (if unat (cur_index r) + 1 \<le> length buff
      then (let (val, r') = readPrimitive_uint8_t buff r;
                (vect, r'') = readSizedVector_loop n buff r'
            in (val # vect, r''))
      else ([], r))"

definition readSizedVector :: "Buffer \<Rightarrow> BuffReader \<Rightarrow> byte list \<times> BuffReader" where
  "readSizedVector buff r =
     (let (len, r') = readPrimitive_uint32_t buff r;
          size = len div 1
      in readSizedVector_loop (unat size) buff r')"


section \<open>Aggregator and solver protocol\<close>

text \<open>The \<open>MessageID\<close> values of \<open>aggregator_solver\<close> that the decoders test.\<close>

definition subscription_request :: byte where "subscription_request = 3"
definition subscription_response :: byte where "subscription_response = 4"

record Transmitter =
  base_id :: uint128_t
  mask :: uint128_t

record Rule =
  physical_layer :: byte
  txers :: "Transmitter list"
  update_interval :: "64 word"

type_synonym Subscription = "Rule list"

primrec decodeSubscribe_txers :: "nat \<Rightarrow> Buffer \<Rightarrow> BuffReader \<Rightarrow> Transmitter list \<times> BuffReader" where
  "decodeSubscribe_txers 0 buff reader = ([], reader)"
| "decodeSubscribe_txers (Suc n) buff reader =
     (let (b, reader) = readPrimitive_uint128_t buff reader;
          (m, reader) = readPrimitive_uint128_t buff reader;
          t = \<lparr>base_id = b, mask = m\<rparr>;
          (ts, reader) = decodeSubscribe_txers n buff reader
      in (t # ts, reader))"

primrec decodeSubscribe_rules :: "nat \<Rightarrow> Buffer \<Rightarrow> BuffReader \<Rightarrow> Subscription \<times> BuffReader" where
  "decodeSubscribe_rules 0 buff reader = ([], reader)"
| "decodeSubscribe_rules (Suc n) buff reader =
     (let (phy, reader) = readPrimitive_uint8_t buff reader;
          (num_txers, reader) = readPrimitive_uint32_t buff reader;
          (ts, reader) = decodeSubscribe_txers (unat num_txers) buff reader;
          (interval, reader) = readPrimitive_uint64_t buff reader;
          rule = \<lparr>physical_layer = phy, txers = ts, update_interval = interval\<rparr>;
          (rules, reader) = decodeSubscribe_rules n buff reader
      in (rule # rules, reader))"

text \<open>
  \<open>decodeSubscribeMsg(buff, length)\<close>; \<open>length\<close> is the caller's \<open>unsigned int\<close>.
  The reader's flag is never consulted.
\<close>

definition decodeSubscribeMsg :: "Buffer \<Rightarrow> 32 word \<Rightarrow> Subscription" where
  "decodeSubscribeMsg buff length_arg =
     (if length_arg > 4
      then (let reader = BuffReader_new;
                (entire_length, reader) = readPrimitive_uint32_t buff reader;
                (msg_type, reader) = readPrimitive_uint8_t buff reader
            in if entire_length + 4 = length_arg \<and>
                  (subscription_request = msg_type \<or> subscription_response = msg_type)
               then (let (num_rules, reader) = readPrimitive_uint32_t buff reader
                     in fst (decodeSubscribe_rules (unat num_rules) buff reader))
               else [])
      else [])"

text \<open>
  \<open>SampleData\<close>; \<open>rss\<close> is a \<open>float\<close>, kept as its 32 bits. The decoder declares
  \<open>SampleData sample;\<close> without initialising it: the scalar fields keep whatever they
  held, which the model takes as the argument \<open>uninit\<close>.
\<close>

record SampleData =
  physical_layer :: byte
  tx_id :: uint128_t
  rx_id :: uint128_t
  rx_timestamp :: "64 word"
  rss :: "32 word"
  sense_data :: "byte list"
  valid :: bool



section \<open>World model protocol, client side\<close>

text \<open>\<open>client::MessageID\<close> is an \<open>enum class\<close> over \<open>uint8_t\<close>.\<close>

definition snapshot_request :: byte where "snapshot_request = 1"
definition range_request :: byte where "range_request = 2"
definition data_response :: byte where "data_response = 8"
definition uri_response :: byte where "uri_response = 10"

record Request =
  object_uri :: u16string
  attributes :: "u16string list"
  start :: "64 word"
  stop_period :: "64 word"

text \<open>\<open>client::Request()\<close>, value-initialised.\<close>

definition Request_empty :: Request where
  "Request_empty = \<lparr>object_uri = [], attributes = [], start = 0, stop_period = 0\<rparr>"

definition makeSnapshotRequest :: "Request \<Rightarrow> 32 word \<Rightarrow> Buffer" where
  "makeSnapshotRequest request ticket =
     (let total_length = (0 :: 32 word);
          (n, buff) = pushBackVal 4 (unat total_length) [];
          s = add_length (pushBackVal 1 (unat snapshot_request)) (total_length, buff);
          s = add_length (pushBackVal 4 (unat ticket)) s;
          s = add_length (pushBackSizedUTF16 (object_uri request)) s;
          s = add_length (pushBackVal 4 (unat (of_nat (length (attributes request)) :: 32 word))) s;
          s = fold (\<lambda>attr. add_length (pushBackSizedUTF16 attr)) (attributes request) s;
          s = add_length (pushBackVal 8 (unat (start request))) s;
          s = add_length (pushBackVal 8 (unat (stop_period request))) s
      in snd (pushBackVal_at 4 (unat (fst s)) (snd s) 0))"

text \<open>
  The loop shared by the decoders of this protocol: \<open>n\<close> calls of
  \<open>readSizedUTF16\<close>, each result pushed onto a vector.
\<close>

primrec readSizedUTF16_times :: "nat \<Rightarrow> Buffer \<Rightarrow> BuffReader \<Rightarrow> u16string list \<times> BuffReader" where
  "readSizedUTF16_times 0 buff reader = ([], reader)"
| "readSizedUTF16_times (Suc n) buff reader =
     (let (attr, reader) = readSizedUTF16 buff reader;
          (attrs, reader) = readSizedUTF16_times n buff reader
      in (attr # attrs, reader))"

text \<open>
  \<open>decodeSnapshotRequest\<close> up to its last test, with the reader it leaves. The local
  \<open>client::Request request;\<close> is not initialised: its strings are empty, its two times
  are taken from the argument \<open>uninit\<close>.
\<close>

definition decodeSnapshotRequest_parse :: "Request \<Rightarrow> Buffer \<Rightarrow> Request \<times> 32 word \<times> BuffReader" where
  "decodeSnapshotRequest_parse uninit buff =
     (let reader = BuffReader_new;
          request = uninit\<lparr>object_uri := [], attributes := []\<rparr>;
          ticket = (0 :: 32 word);
          (total_length, reader) = readPrimitive_uint32_t buff reader;
          (msg_type, reader) = readPrimitive_uint8_t buff reader
      in if length buff = unat (total_length + 4) \<and> msg_type = snapshot_request
         then (let (ticket, reader) = readPrimitive_uint32_t buff reader;
                   (uri, reader) = readSizedUTF16 buff reader;
                   (total_attributes, reader) = readPrimitive_uint32_t buff reader;
                   (attrs, reader) = readSizedUTF16_times (unat total_attributes) buff reader;
                   (st, reader) = readPrimitive_uint64_t buff reader;
                   (sp, reader) = readPrimitive_uint64_t buff reader
               in (\<lparr>object_uri = uri, attributes = attrs, start = st, stop_period = sp\<rparr>,
                   ticket, reader))
         else (request, ticket, reader))"

definition decodeSnapshotRequest :: "Request \<Rightarrow> Buffer \<Rightarrow> Request \<times> 32 word" where
  "decodeSnapshotRequest uninit buff =
     (let (request, ticket, reader) = decodeSnapshotRequest_parse uninit buff
      in if outOfRange reader then (Request_empty, ticket) else (request, ticket))"

text \<open>
  \<open>decodeRangeRequest\<close> takes the buffer by reference and writes to it: the model
  returns the buffer as the call leaves it, next to the result.
\<close>

definition decodeRangeRequest :: "Request \<Rightarrow> Buffer \<Rightarrow> (Request \<times> 32 word) \<times> Buffer" where
  "decodeRangeRequest uninit buff =
     (if length buff \<ge> 5 \<and> range_request = buff ! 4
      then (let buff = buff[4 := snapshot_request]
            in (decodeSnapshotRequest uninit buff, buff))
      else ((uninit\<lparr>object_uri := [], attributes := []\<rparr>, 0), buff))"

record AliasedAttribute =
  name_alias :: "32 word"
  creation_date :: "64 word"
  expiration_date :: "64 word"
  origin_alias :: "32 word"
  data :: "byte list"

record AliasedWorldData =
  object_uri :: u16string
  attributes :: "AliasedAttribute list"

definition AliasedWorldData_empty :: AliasedWorldData where
  "AliasedWorldData_empty = \<lparr>object_uri = [], attributes = []\<rparr>"

primrec decodeData_attributes :: "nat \<Rightarrow> Buffer \<Rightarrow> BuffReader \<Rightarrow> AliasedAttribute list \<times> BuffReader" where
  "decodeData_attributes 0 buff reader = ([], reader)"
| "decodeData_attributes (Suc n) buff reader =
     (let (na, reader) = readPrimitive_uint32_t buff reader;
          (cd, reader) = readPrimitive_uint64_t buff reader;
          (ed, reader) = readPrimitive_uint64_t buff reader;
          (oa, reader) = readPrimitive_uint32_t buff reader;
          (d, reader) = readSizedVector buff reader;
          aa = \<lparr>name_alias = na, creation_date = cd, expiration_date = ed,
                 origin_alias = oa, data = d\<rparr>;
          (aas, reader) = decodeData_attributes n buff reader
      in (aa # aas, reader))"

text \<open>
  \<open>decodeDataMessage\<close> up to its last test: the data read, the ticket, the attribute
  count read from the frame (0 when the frame is not accepted), the reader before the
  attribute loop and the reader at the end.
\<close>

definition decodeDataMessage_parse ::
  "Buffer \<Rightarrow> AliasedWorldData \<times> 32 word \<times> 32 word \<times> BuffReader \<times> BuffReader" where
  "decodeDataMessage_parse buff =
     (let reader = BuffReader_new;
          wd = AliasedWorldData_empty;
          ticket_number = (0 :: 32 word);
          (total_length, reader) = readPrimitive_uint32_t buff reader;
          (msg_type, reader) = readPrimitive_uint8_t buff reader
      in if length buff = unat (total_length + 4) \<and> data_response = msg_type
         then (let (uri, reader) = readSizedUTF16 buff reader;
                   (ticket_number, reader) = readPrimitive_uint32_t buff reader;
                   (total_attributes, reader0) = readPrimitive_uint32_t buff reader;
                   (aas, reader) = decodeData_attributes (unat total_attributes) buff reader0
               in (\<lparr>object_uri = uri, attributes = aas\<rparr>, ticket_number,
                   total_attributes, reader0, reader))
         else (wd, ticket_number, 0, reader, reader))"

definition decodeDataMessage :: "Buffer \<Rightarrow> AliasedWorldData \<times> 32 word" where
  "decodeDataMessage buff =
     (let (wd, ticket_number, total_attributes, reader0, reader) = decodeDataMessage_parse buff
      in if outOfRange reader then (AliasedWorldData_empty, 0) else (wd, ticket_number))"

definition makeURISearchResponse :: "u16string list \<Rightarrow> Buffer" where
  "makeURISearchResponse uris =
     (let total_length = (0 :: 32 word);
          (n, buff) = pushBackVal 4 (unat total_length) [];
          s = add_length (pushBackVal 1 (unat uri_response)) (total_length, buff);
          s = fold (\<lambda>uri. add_length (pushBackSizedUTF16 uri)) uris s
      in snd (pushBackVal_at 4 (unat (fst s)) (snd s) 0))"

text \<open>
  The decoders below are given in two parts, as \<open>decodeSnapshotRequest\<close> is: the
  parse with the reader it leaves, and the last test on \<open>outOfRange\<close>.
\<close>

definition decodeURISearchResponse_parse :: "Buffer \<Rightarrow> u16string list \<times> BuffReader" where
  "decodeURISearchResponse_parse buff =
     (let reader = BuffReader_new;
          (total_length, reader) = readPrimitive_uint32_t buff reader;
          (msg_type, reader) = readPrimitive_uint8_t buff reader
      in if length buff = unat (total_length + 4) \<and> uri_response = msg_type
         then (let (total_uris, reader) = readPrimitive_uint32_t buff reader
               in readSizedUTF16_times (unat total_uris) buff reader)
         else ([], reader))"

definition decodeURISearchResponse :: "Buffer \<Rightarrow> u16string list" where
  "decodeURISearchResponse buff =
     (let (uris, reader) = decodeURISearchResponse_parse buff
      in if outOfRange reader then [] else uris)"

section \<open>World model protocol, solver side\<close>

definition start_on_demand :: byte where "start_on_demand = 2"
definition stop_on_demand :: byte where "stop_on_demand = 3"
definition solver_data :: byte where "solver_data = 4"

text \<open>
  \<open>SolutionData\<close>; its field \<open>type_alias\<close> is written with a prime, the plain name
  being reserved in Isabelle.
\<close>

record SolutionData =
  type_alias' :: "32 word"
  time :: "64 word"
  target :: u16string
  data :: "byte list"

definition pushSolution :: "SolutionData \<Rightarrow> 32 word \<times> Buffer \<Rightarrow> 32 word \<times> Buffer" where
  "pushSolution soln s =
     (let s = add_length (pushBackVal 4 (unat (type_alias' soln))) s;
          s = add_length (pushBackVal 8 (unat (time soln))) s;
          s = add_length (pushBackSizedUTF16 (target soln)) s
      in add_length (pushSizedContainer (data soln)) s)"

definition makeSolutionMsg :: "bool \<Rightarrow> SolutionData list \<Rightarrow> Buffer" where
  "makeSolutionMsg create_uris solutions =
     (let total_length = (0 :: 32 word);
          (n, buff) = pushBackVal 4 (unat total_length) [];
          s = add_length (pushBackVal 1 (unat solver_data)) (total_length, buff);
          s = add_length (pushBackVal 1 (if create_uris then 1 else 0)) s;
          s = add_length (pushBackVal 4 (unat (of_nat (length solutions) :: 32 word))) s;
          s = fold pushSolution solutions s
      in snd (pushBackVal_at 4 (unat (fst s)) (snd s) 0))"

primrec decodeSolution_loop :: "nat \<Rightarrow> Buffer \<Rightarrow> BuffReader \<Rightarrow> SolutionData list \<times> BuffReader" where
  "decodeSolution_loop 0 buff reader = ([], reader)"
| "decodeSolution_loop (Suc n) buff reader =
     (let (ta, reader) = readPrimitive_uint32_t buff reader;
          (tm, reader) = readPrimitive_uint64_t buff reader;
          (tg, reader) = readSizedUTF16 buff reader;
          (d, reader) = readSizedVector buff reader;
          sd = \<lparr>type_alias' = ta, time = tm, target = tg, data = d\<rparr>;
          (sds, reader) = decodeSolution_loop n buff reader
      in (sd # sds, reader))"

definition decodeSolutionMsg_parse :: "Buffer \<Rightarrow> bool \<times> SolutionData list \<times> BuffReader" where
  "decodeSolutionMsg_parse buff =
     (let reader = BuffReader_new;
          (total_length, reader) = readPrimitive_uint32_t buff reader;
          (msg_type, reader) = readPrimitive_uint8_t buff reader
      in if length buff = unat (total_length + 4) \<and> msg_type = solver_data
         then (let (cu, reader) = readPrimitive_uint8_t buff reader;
                   (num_solns, reader) = readPrimitive_uint32_t buff reader;
                   (solutions, reader) = decodeSolution_loop (unat num_solns) buff reader
               in (cu = 1, solutions, reader))
         else (False, [], reader))"

definition decodeSolutionMsg :: "Buffer \<Rightarrow> bool \<times> SolutionData list" where
  "decodeSolutionMsg buff =
     (let (create_uris, solutions, reader) = decodeSolutionMsg_parse buff
      in if outOfRange reader then (False, []) else (create_uris, solutions))"

primrec decodeStartOnDemand_aliases ::
  "nat \<Rightarrow> Buffer \<Rightarrow> BuffReader \<Rightarrow> (32 word \<times> u16string list) list \<times> BuffReader" where
  "decodeStartOnDemand_aliases 0 buff reader = ([], reader)"
| "decodeStartOnDemand_aliases (Suc n) buff reader =
     (let (cur_alias, reader) = readPrimitive_uint32_t buff reader;
          (total_attribs, reader) = readPrimitive_uint32_t buff reader;
          (attribs, reader) = readSizedUTF16_times (unat total_attribs) buff reader;
          (aliases, reader) = decodeStartOnDemand_aliases n buff reader
      in ((cur_alias, attribs) # aliases, reader))"

definition decodeStartOnDemand_parse ::
  "Buffer \<Rightarrow> (32 word \<times> u16string list) list \<times> BuffReader" where
  "decodeStartOnDemand_parse buff =
     (let reader = BuffReader_new;
          (total_length, reader) = readPrimitive_uint32_t buff reader;
          (msg_type, reader) = readPrimitive_uint8_t buff reader
      in if length buff = unat (total_length + 4) \<and> msg_type = start_on_demand
         then (let (total_aliases, reader) = readPrimitive_uint32_t buff reader
               in decodeStartOnDemand_aliases (unat total_aliases) buff reader)
         else ([], reader))"

definition decodeStartOnDemand :: "Buffer \<Rightarrow> (32 word \<times> u16string list) list" where
  "decodeStartOnDemand buff =
     (let (aliases, reader) = decodeStartOnDemand_parse buff
      in if outOfRange reader then [] else aliases)"

text \<open>\<open>decodeStopOnDemand\<close> writes to the caller's buffer; the model returns it.\<close>

definition decodeStopOnDemand :: "Buffer \<Rightarrow> (32 word \<times> u16string list) list \<times> Buffer" where
  "decodeStopOnDemand buff =
     (let reader = BuffReader_new;
          (total_length, reader) = readPrimitive_uint32_t buff reader;
          (msg_type, reader) = readPrimitive_uint8_t buff reader
      in if length buff = unat (total_length + 4) \<and> msg_type = stop_on_demand
         then (let buff = buff[4 := start_on_demand] in (decodeStartOnDemand buff, buff))
         else ([], buff))"

section \<open>MessageReceiver\<close>

text \<open>
  The socket is the environment of the receiver. Its answers to the coming calls of
  \<open>inputReady\<close> and \<open>receive\<close> are two lists, consumed one answer a call; past the
  end of a list the socket stays silent (not ready, would block). \<open>Received bs\<close> is a
  \<open>receive\<close> that returned \<open>length bs\<close>, so \<open>Received []\<close> is the return value 0
  of a closed connection, as \<open>Closed\<close> is. The flag \<open>interrupted\<close> is a reference that
  another thread may set; the model fixes its value for the duration of one call.
\<close>

datatype poll_result = Ready | NotReady | PollError
datatype recv_result = WouldBlock | RecvError | Closed | Received "byte list"

record MessageReceiver =
  previous_unfinished :: "byte list"
  polls :: "poll_result list"
  recvs :: "recv_result list"

datatype 'a outcome = Returns 'a MessageReceiver | Throws MessageReceiver | NoReturn

definition inputReady :: "MessageReceiver \<Rightarrow> poll_result \<times> MessageReceiver" where
  "inputReady mr = (case polls mr of [] \<Rightarrow> (NotReady, mr) | p # ps \<Rightarrow> (p, mr\<lparr>polls := ps\<rparr>))"

definition receive :: "MessageReceiver \<Rightarrow> recv_result \<times> MessageReceiver" where
  "receive mr = (case recvs mr of [] \<Rightarrow> (WouldBlock, mr) | e # es \<Rightarrow> (e, mr\<lparr>recvs := es\<rparr>))"

text \<open>\<open>piece_length = readPrimitive<uint32_t>(previous_unfinished, 0) + 4\<close>, in 32 bits.\<close>

definition piece_length_of :: "byte list \<Rightarrow> 32 word" where
  "piece_length_of pu = of_nat (readPrimitive_at 4 pu 0) + 4"

definition messageAvailable :: "bool \<Rightarrow> MessageReceiver \<Rightarrow> bool outcome" where
  "messageAvailable interrupted mr =
     (let pu = previous_unfinished mr;
          piece_length = (if length pu \<ge> 4 then piece_length_of pu else 0);
          finish = (\<lambda>mr. Returns (unat (piece_length_of (previous_unfinished mr))
                                    \<le> length (previous_unfinished mr)) mr)
      in if \<not> interrupted \<and> (length pu < 4 \<or> length pu < unat piece_length)
         then (case inputReady mr of
                 (PollError, mr) \<Rightarrow> Throws mr
               | (NotReady, mr) \<Rightarrow> Returns False mr
               | (Ready, mr) \<Rightarrow>
                   (case receive mr of
                      (WouldBlock, mr) \<Rightarrow> Returns False mr
                    | (RecvError, mr) \<Rightarrow> Throws mr
                    | (Closed, mr) \<Rightarrow> Throws mr
                    | (Received bs, mr) \<Rightarrow>
                        if bs = [] then Throws mr
                        else finish (mr\<lparr>previous_unfinished := pu @ bs\<rparr>)))
         else finish mr)"

text \<open>
  The receive loop of \<open>getNextMessage\<close>, on the answers of \<open>receive\<close> still to come.
  When they are used up and the frame is still incomplete the loop polls a silent
  socket for ever: \<open>None\<close>. Otherwise it leaves the pending bytes and the unused
  answers, with \<open>True\<close> when it left by a throw.
\<close>

fun getNextMessage_loop ::
  "bool \<Rightarrow> 32 word \<Rightarrow> byte list \<Rightarrow> recv_result list
     \<Rightarrow> (bool \<times> byte list \<times> recv_result list) option" where
  "getNextMessage_loop interrupted piece_length pu [] =
     (if \<not> interrupted \<and> (length pu < 4 \<or> length pu < unat piece_length)
      then None else Some (False, pu, []))"
| "getNextMessage_loop interrupted piece_length pu (e # es) =
     (if \<not> interrupted \<and> (length pu < 4 \<or> length pu < unat piece_length)
      then (case e of
              WouldBlock \<Rightarrow> getNextMessage_loop interrupted piece_length pu es
            | RecvError \<Rightarrow> Some (True, pu, es)
            | Closed \<Rightarrow> Some (True, pu, es)
            | Received bs \<Rightarrow>
                if bs = [] then Some (True, pu, es)
                else (let pu = pu @ bs;
                          piece_length = (if length pu \<ge> 4 then piece_length_of pu
                                          else piece_length)
                      in getNextMessage_loop interrupted piece_length pu es))
      else Some (False, pu, e # es))"

definition getNextMessage :: "bool \<Rightarrow> MessageReceiver \<Rightarrow> byte list outcome" where
  "getNextMessage interrupted mr =
     (let pu = previous_unfinished mr;
          piece_length = (if length pu \<ge> 4 then piece_length_of pu else 0)
      in case getNextMessage_loop interrupted piece_length pu (recvs mr) of
           None \<Rightarrow> NoReturn
         | Some (True, pu, es) \<Rightarrow> Throws (mr\<lparr>previous_unfinished := pu, recvs := es\<rparr>)
         | Some (False, pu, es) \<Rightarrow>
             (let mr = mr\<lparr>previous_unfinished := pu, recvs := es\<rparr>
              in if interrupted then Returns [] mr
                 else (let piece_length = piece_length_of pu;
                           new_packet = take (unat piece_length) pu
                       in if unat piece_length < length pu
                          then Returns new_packet
                                 (mr\<lparr>previous_unfinished := drop (unat piece_length) pu\<rparr>)
                          else Returns new_packet (mr\<lparr>previous_unfinished := []\<rparr>))))"

section \<open>The other decoders of the protocols\<close>


subsection \<open>Sensor and aggregator protocol\<close>



subsection \<open>World model protocol, client side\<close>


text \<open>
  The \<open>MessageID\<close> \<open>origin_alias\<close> is written \<open>origin_alias_id\<close> here, the plain
  name being a field of \<open>AliasedAttribute\<close>.
\<close>

















subsection \<open>World model protocol, solver side\<close>















section \<open>Notions used by the statements\<close>

text \<open>What every decoder reads first: the declared length and the \<open>MessageID\<close>.\<close>

definition declared_length :: "Buffer \<Rightarrow> 32 word" where
  "declared_length buff = fst (readPrimitive_uint32_t buff BuffReader_new)"

definition message_id :: "Buffer \<Rightarrow> byte" where
  "message_id buff =
     fst (readPrimitive_uint8_t buff (snd (readPrimitive_uint32_t buff BuffReader_new)))"

text \<open>
  A frame is accepted as being of a kind when its declared length is the
  buffer length minus 4 and its \<open>MessageID\<close> is that kind: the test of the decoders of
  the world model protocol.
\<close>

definition frame_accepted :: "Buffer \<Rightarrow> byte \<Rightarrow> bool" where
  "frame_accepted buff kind \<longleftrightarrow>
     length buff = unat (declared_length buff + 4) \<and> message_id buff = kind"

text \<open>A reader that has consumed \<open>p\<close> bytes, iterator and index in step.\<close>

definition reader_at :: "nat \<Rightarrow> bool \<Rightarrow> BuffReader" where
  "reader_at p f = \<lparr>buff_i = p, out_of_range = f, cur_index = of_nat p\<rparr>"

text \<open>The bytes of the composite values on the wire.\<close>

definition wire_utf16 :: "u16string \<Rightarrow> byte list" where
  "wire_utf16 str = concat (map (\<lambda>c. toNetworkEndian 2 (unat c)) str)"

definition wire_sized_utf16 :: "u16string \<Rightarrow> byte list" where
  "wire_sized_utf16 str = toNetworkEndian 4 (length str * 2 mod 2 ^ 32) @ wire_utf16 str"

definition wire_sized_bytes :: "byte list \<Rightarrow> byte list" where
  "wire_sized_bytes bs = toNetworkEndian 4 (length bs mod 2 ^ 32) @ bs"

definition wire_solution :: "SolutionData \<Rightarrow> byte list" where
  "wire_solution sd =
     toNetworkEndian 4 (unat (type_alias' sd)) @ toNetworkEndian 8 (unat (time sd)) @
     wire_sized_utf16 (target sd) @ wire_sized_bytes (data sd)"

text \<open>
  The size of a \<open>solver_data\<close> frame: 10 bytes of length, \<open>MessageID\<close>, flag and
  count, then 20 bytes and the target and data of each solution. A list of solutions
  fits a frame when that size can be written in the 32 bits of a length.
\<close>

definition solution_size :: "SolutionData \<Rightarrow> nat" where
  "solution_size sd = 20 + 2 * length (target sd) + length (data sd)"

definition solutions_fit :: "SolutionData list \<Rightarrow> bool" where
  "solutions_fit solutions \<longleftrightarrow> 10 + sum_list (map solution_size solutions) < 2 ^ 32"

text \<open>
  The attribute count that \<open>decodeDataMessage\<close> reads from a frame and the offset at
  which its attribute loop starts; the rule count that \<open>decodeSubscribeMsg\<close> reads.
\<close>

definition declared_attribute_count :: "Buffer \<Rightarrow> 32 word" where
  "declared_attribute_count buff =
     (case decodeDataMessage_parse buff of (wd, ticket, n, reader0, reader) \<Rightarrow> n)"

definition attributes_offset :: "Buffer \<Rightarrow> nat" where
  "attributes_offset buff =
     (case decodeDataMessage_parse buff of (wd, ticket, n, reader0, reader) \<Rightarrow>
        unat (cur_index reader0))"

definition declared_rule_count :: "Buffer \<Rightarrow> 32 word" where
  "declared_rule_count buff =
     fst (readPrimitive_uint32_t buff
       (snd (readPrimitive_uint8_t buff (snd (readPrimitive_uint32_t buff BuffReader_new)))))"

text \<open>
  Progress of the reader from \<open>r\<close> to \<open>r'\<close> in a buffer: the index stays inside the
  buffer and does not go back, the flag stays latched, and unless the flag is latched
  at least \<open>n\<close> bytes were consumed.
\<close>

definition advanced :: "nat \<Rightarrow> Buffer \<Rightarrow> BuffReader \<Rightarrow> BuffReader \<Rightarrow> bool" where
  "advanced n buff r r' \<longleftrightarrow>
     unat (cur_index r') \<le> length buff \<and>
     unat (cur_index r) \<le> unat (cur_index r') \<and>
     (out_of_range r \<longrightarrow> out_of_range r') \<and>
     (\<not> out_of_range r' \<longrightarrow> unat (cur_index r) + n \<le> unat (cur_index r'))"


definition truncated_blob_frame :: Buffer where
  "truncated_blob_frame =
     [0, 0, 0, 44, 8, 0, 0, 0, 0, 0, 0, 0, 9, 0, 0, 0, 1,
      0, 0, 0, 5, 0, 0, 0, 0, 0, 0, 0, 1, 0, 0, 0, 0, 0, 0, 0, 2, 0, 0, 0, 6,
      0, 0, 0, 10, 1, 2, 3]"

text \<open>
  The request of the snapshot scenario: the object URI \<open>lamp.*\<close> and the attributes
  \<open>location\<close> and \<open>on\<close>, as UTF-16 code units.
\<close>

definition lamp_uri :: u16string where
  "lamp_uri = [0x6C, 0x61, 0x6D, 0x70, 0x2E, 0x2A]"

definition location_attribute :: u16string where
  "location_attribute = [0x6C, 0x6F, 0x63, 0x61, 0x74, 0x69, 0x6F, 0x6E]"

definition on_attribute :: u16string where
  "on_attribute = [0x6F, 0x6E]"

definition lamp_request :: Request where
  "lamp_request =
     \<lparr>Request.object_uri = lamp_uri,
      Request.attributes = [location_attribute, on_attribute],
      start = 1000, stop_period = 2000\<rparr>"

text \<open>The URI \<open>a\<close>, one code unit.\<close>

definition uri_a :: u16string where
  "uri_a = [0x61]"

text \<open>Four bytes of 255 followed by \<open>2 ^ 32\<close> bytes.\<close>

definition huge_pending :: "byte list" where
  "huge_pending = [255, 255, 255, 255] @ replicate (2 ^ 32) 0"

section \<open>Properties of the reader\<close>

lemma readPrimitive_keeps_flag:
  "out_of_range r \<Longrightarrow> out_of_range (snd (readPrimitive sz buff r))"
  by (simp add: readPrimitive_def)

lemma readPrimitive_char16_t_keeps_flag:
  "out_of_range r \<Longrightarrow> out_of_range (snd (readPrimitive_char16_t buff r))"
  by (simp add: readPrimitive_char16_t_def readPrimitive_def)

lemma readUTF16_keeps_flag:
  "out_of_range r \<Longrightarrow> out_of_range (snd (readUTF16 n buff r))"
proof (induction n arbitrary: r)
  case 0
  then show ?case by simp
next
  case (Suc n)
  from Suc.prems have "out_of_range (snd (readPrimitive_char16_t buff r))"
    by (rule readPrimitive_char16_t_keeps_flag)
  then have "out_of_range (snd (readUTF16 n buff (snd (readPrimitive_char16_t buff r))))"
    by (rule Suc.IH)
  then show ?case by (simp add: split_beta Let_def)
qed

lemma unat_cursor_step:
  "unat (c::32 word) + sz \<le> n \<Longrightarrow> n < 2 ^ 32 \<Longrightarrow> unat (c + of_nat sz) = unat c + sz"
  by (simp add: unat_word_ariths unat_of_nat)

lemma readUTF16_short:
  "length buff < 2 ^ 32 \<Longrightarrow> unat (cur_index r) \<le> length buff
     \<Longrightarrow> length buff < unat (cur_index r) + 2 * n
     \<Longrightarrow> out_of_range (snd (readUTF16 n buff r))"
proof (induction n arbitrary: r)
  case 0
  then show ?case by simp
next
  case (Suc n)
  show ?case
  proof (cases "unat (cur_index r) + 2 \<le> length buff")
    case True
    let ?r' = "snd (readPrimitive_char16_t buff r)"
    have c: "unat (cur_index ?r') = unat (cur_index r) + 2"
      using True Suc.prems(1) unat_cursor_step [of "cur_index r" 2 "length buff"]
      by (simp add: readPrimitive_char16_t_def readPrimitive_def)
    have "out_of_range (snd (readUTF16 n buff ?r'))"
      using Suc.prems c True by (intro Suc.IH) simp_all
    then show ?thesis by (simp add: split_beta Let_def)
  next
    case False
    then have "out_of_range (snd (readPrimitive_char16_t buff r))"
      by (simp add: readPrimitive_char16_t_def readPrimitive_def)
    then have "out_of_range (snd (readUTF16 n buff (snd (readPrimitive_char16_t buff r))))"
      by (rule readUTF16_keeps_flag)
    then show ?thesis by (simp add: split_beta Let_def)
  qed
qed

text \<open>
  Claim C5. When fewer than \<open>sizeof(T)\<close> bytes remain, \<open>readPrimitive<T>\<close> returns
  zero and latches the flag. The cursor is left where it was, not moved to the end of
  the buffer. Every later read of a type at least as large does the same; a smaller
  type that still fits is read normally, as the counterexample shows on a buffer of two
  bytes (a failed four-byte read, then a two-byte read that returns 258).
\<close>

theorem readPrimitive_exhausted:
  "length buff < unat (cur_index r) + sz \<Longrightarrow>
     readPrimitive sz buff r = (0, r\<lparr>out_of_range := True\<rparr>) \<and>
     cur_index (snd (readPrimitive sz buff r)) = cur_index r \<and>
     (\<forall>sz'. sz \<le> sz' \<longrightarrow>
        readPrimitive sz' buff (snd (readPrimitive sz buff r)) = (0, r\<lparr>out_of_range := True\<rparr>))"
  by (simp add: readPrimitive_def)

theorem readPrimitive_exhausted_witness:
  "length [1, 2 :: byte] < unat (cur_index BuffReader_new) + 4 \<and>
     readPrimitive 4 [1, 2] BuffReader_new = (0, BuffReader_new\<lparr>out_of_range := True\<rparr>) \<and>
     readPrimitive 8 [1, 2] (snd (readPrimitive 4 [1, 2] BuffReader_new))
       = (0, BuffReader_new\<lparr>out_of_range := True\<rparr>)"
proof -
  have h: "length [1, 2 :: byte] < unat (cur_index BuffReader_new) + 4"
    by (simp add: BuffReader_new_def)
  note t = readPrimitive_exhausted [OF h]
  from t have a: "readPrimitive 4 [1, 2] BuffReader_new = (0, BuffReader_new\<lparr>out_of_range := True\<rparr>)"
    by blast
  from t have "(4::nat) \<le> 8 \<longrightarrow> readPrimitive 8 [1, 2] (snd (readPrimitive 4 [1, 2] BuffReader_new))
       = (0, BuffReader_new\<lparr>out_of_range := True\<rparr>)"
    by blast
  with h a show ?thesis by simp
qed

theorem readPrimitive_exhausted_counterexample:
  "length [1, 2 :: byte] < unat (cur_index BuffReader_new) + 4 \<and>
   unat (cur_index (snd (readPrimitive 4 [1, 2] BuffReader_new))) \<noteq> length [1, 2 :: byte] \<and>
   fst (readPrimitive 2 [1, 2] (snd (readPrimitive 4 [1, 2] BuffReader_new))) = 258"
  by (simp add: readPrimitive_def BuffReader_new_def fromNetworkEndian_def)

text \<open>
  Claim C6. \<open>readSizedUTF16\<close> halves the byte length \<open>L\<close> and reads that many code
  units, so the flag is latched when the prefix itself cannot be read or when the
  buffer holds fewer than \<open>2 * (L div 2)\<close> bytes after it; for an even \<open>L\<close> that is
  "fewer than \<open>L\<close> bytes". An odd \<open>L\<close> alone latches nothing: the counterexample has
  \<open>L = 3\<close> and two bytes after the prefix, which are read as one code unit. The
  statement is for a reader inside a buffer shorter than \<open>2 ^ 32\<close> bytes, where the
  32-bit \<open>cur_index\<close> cannot wrap.
\<close>

theorem readSizedUTF16_latches:
  assumes "length buff < 2 ^ 32"
    and "unat (cur_index r) \<le> length buff"
    and "length buff < unat (cur_index r) + 4 + 2 * (unat (fst (readPrimitive_uint32_t buff r)) div 2)"
  shows "out_of_range (snd (readSizedUTF16 buff r))"
proof (cases "unat (cur_index r) + 4 \<le> length buff")
  case True
  let ?r' = "snd (readPrimitive_uint32_t buff r)"
  let ?L = "fst (readPrimitive_uint32_t buff r)"
  have c: "unat (cur_index ?r') = unat (cur_index r) + 4"
    using True assms(1) unat_cursor_step [of "cur_index r" 4 "length buff"]
    by (simp add: readPrimitive_uint32_t_def readPrimitive_def)
  have d: "unat (?L div 2) = unat ?L div 2"
    by (simp add: unat_div)
  have "out_of_range (snd (readUTF16 (unat (?L div 2)) buff ?r'))"
    using assms c d True by (intro readUTF16_short) simp_all
  then show ?thesis by (simp add: readSizedUTF16_def split_beta Let_def)
next
  case False
  then have "out_of_range (snd (readPrimitive_uint32_t buff r))"
    by (simp add: readPrimitive_uint32_t_def readPrimitive_def)
  then have "out_of_range (snd (readUTF16 n buff (snd (readPrimitive_uint32_t buff r))))" for n
    by (rule readUTF16_keeps_flag)
  then show ?thesis by (simp add: readSizedUTF16_def split_beta Let_def)
qed

theorem readSizedUTF16_counterexample:
  "fst (readPrimitive_uint32_t [0, 0, 0, 3, 0, 65] BuffReader_new) = 3 \<and>
   \<not> out_of_range (snd (readSizedUTF16 [0, 0, 0, 3, 0, 65] BuffReader_new))"
  by (simp add: readSizedUTF16_def readPrimitive_uint32_t_def readPrimitive_char16_t_def
      readPrimitive_def BuffReader_new_def fromNetworkEndian_def)

theorem readSizedUTF16_latches_witness:
  "length [0, 0, 0, 4, 0, 65 :: byte] < 2 ^ 32 \<and>
   unat (cur_index BuffReader_new) \<le> length [0, 0, 0, 4, 0, 65 :: byte] \<and>
   length [0, 0, 0, 4, 0, 65 :: byte]
     < unat (cur_index BuffReader_new) + 4 +
       2 * (unat (fst (readPrimitive_uint32_t [0, 0, 0, 4, 0, 65] BuffReader_new)) div 2) \<and>
   out_of_range (snd (readSizedUTF16 [0, 0, 0, 4, 0, 65] BuffReader_new))"
proof -
  have L: "fst (readPrimitive_uint32_t [0, 0, 0, 4, 0, 65] BuffReader_new) = 4"
    by (simp add: readPrimitive_uint32_t_def readPrimitive_def BuffReader_new_def
        fromNetworkEndian_def)
  have a: "length [0, 0, 0, 4, 0, 65 :: byte] < 2 ^ 32"
    by simp
  have b: "unat (cur_index BuffReader_new) \<le> length [0, 0, 0, 4, 0, 65 :: byte]"
    by (simp add: BuffReader_new_def)
  have c: "length [0, 0, 0, 4, 0, 65 :: byte]
     < unat (cur_index BuffReader_new) + 4 +
       2 * (unat (fst (readPrimitive_uint32_t [0, 0, 0, 4, 0, 65] BuffReader_new)) div 2)"
    unfolding L by (simp add: BuffReader_new_def)
  show ?thesis
    using a b c readSizedUTF16_latches [OF a b c] by blast
qed

section \<open>The bytes written by the encoders\<close>

lemma length_toNetworkEndian [simp]: "length (toNetworkEndian sz v) = sz"
  by (induction sz arbitrary: v) simp_all

lemma fromNetworkEndian_snoc:
  "fromNetworkEndian (bs @ [b]) = fromNetworkEndian bs * 256 + unat b"
  by (simp add: fromNetworkEndian_def)

lemma unat_byte_less: "unat (c :: byte) < 256"
  using unsigned_less [of c, where 'a = nat] by simp

lemma byte_of_unat_mod [simp]: "(of_nat (unat (c :: byte) mod 256) :: byte) = c"
proof -
  have "unat c mod 256 = unat c"
    using unat_byte_less [of c] by simp
  then show ?thesis by simp
qed

lemma toNetworkEndian_byte [simp]: "toNetworkEndian (Suc 0) (unat (c :: byte)) = [c]"
  by simp

lemma unat_byte_of_nat: "unat (of_nat (v mod 256) :: byte) = v mod 256"
  by (simp add: unat_of_nat)

lemma from_toNetworkEndian: "fromNetworkEndian (toNetworkEndian sz v) = v mod 256 ^ sz"
proof (induction sz arbitrary: v)
  case 0
  then show ?case by (simp add: fromNetworkEndian_def)
next
  case (Suc sz)
  have "fromNetworkEndian (toNetworkEndian (Suc sz) v) = (v div 256) mod 256 ^ sz * 256 + v mod 256"
    by (simp add: fromNetworkEndian_snoc Suc.IH unat_byte_of_nat del: of_nat_mod)
  also have "\<dots> = v mod 256 ^ Suc sz"
    by (simp add: mod_mult2_eq)
  finally show ?case .
qed

lemma add_length_pushBackVal:
  "add_length (pushBackVal sz v) (n, b) = (n + of_nat sz, b @ toNetworkEndian sz v)"
  by (simp add: add_length_def pushBackVal_def)

lemma fold_push_chars:
  "fold (\<lambda>c. add_length (pushBackVal 2 (unat c))) str (n, b)
     = (n + of_nat (2 * length str), b @ wire_utf16 str)"
proof (induction str arbitrary: n b)
  case Nil
  then show ?case by (simp add: wire_utf16_def)
next
  case (Cons c str)
  show ?case
    by (simp add: add_length_pushBackVal Cons.IH wire_utf16_def)
qed

lemma fold_push_bytes_Suc:
  "fold (\<lambda>c. add_length (pushBackVal (Suc 0) (unat c))) bs (n, b)
     = (n + of_nat (length bs), b @ bs)"
  by (induction bs arbitrary: n b) (simp_all add: add_length_pushBackVal add.assoc)

lemma fold_push_bytes:
  "fold (\<lambda>c. add_length (pushBackVal 1 (unat c))) bs (n, b)
     = (n + of_nat (length bs), b @ bs)"
  unfolding One_nat_def by (rule fold_push_bytes_Suc)

lemma pushBackSizedUTF16_eq:
  "add_length (pushBackSizedUTF16 str) (n, b)
     = (n + of_nat (4 + 2 * length str), b @ wire_sized_utf16 str)"
proof -
  have "pushBackSizedUTF16 str b
          = (of_nat 4 + of_nat (2 * length str),
             (b @ toNetworkEndian 4 (length str * 2 mod 2 ^ 32)) @ wire_utf16 str)"
    unfolding pushBackSizedUTF16_def Let_def add_length_pushBackVal fold_push_chars
    by (simp only: unat_of_nat) simp
  then show ?thesis
    by (simp add: add_length_def wire_sized_utf16_def)
qed

lemma pushSizedContainer_eq:
  "add_length (pushSizedContainer bs) (n, b)
     = (n + of_nat (4 + length bs), b @ wire_sized_bytes bs)"
proof -
  have "pushSizedContainer bs b
          = (of_nat 4 + of_nat (length bs), (b @ toNetworkEndian 4 (length bs mod 2 ^ 32)) @ bs)"
    unfolding pushSizedContainer_def Let_def add_length_pushBackVal fold_push_bytes
    by (simp add: unat_of_nat)
  then show ?thesis
    by (simp add: add_length_def wire_sized_bytes_def)
qed

lemma pushSolution_eq:
  "pushSolution sd (n, b) = (n + of_nat (solution_size sd), b @ wire_solution sd)"
  unfolding pushSolution_def Let_def add_length_pushBackVal pushBackSizedUTF16_eq
    pushSizedContainer_eq
  by (simp add: solution_size_def wire_solution_def)

lemma fold_pushSolution:
  "fold pushSolution sols (n, b)
     = (n + of_nat (sum_list (map solution_size sols)), b @ concat (map wire_solution sols))"
  by (induction sols arbitrary: n b) (simp_all add: pushSolution_eq)

lemma makeSolutionMsg_wire:
  "makeSolutionMsg c sols =
     toNetworkEndian 4 ((6 + sum_list (map solution_size sols)) mod 2 ^ 32) @
     toNetworkEndian 1 (unat solver_data) @ toNetworkEndian 1 (if c then 1 else 0) @
     toNetworkEndian 4 (length sols mod 2 ^ 32) @ concat (map wire_solution sols)"
proof -
  have u: "unat (0 + of_nat 1 + of_nat 1 + of_nat 4 + of_nat (sum_list (map solution_size sols)) :: 32 word)
             = (6 + sum_list (map solution_size sols)) mod 2 ^ 32"
  proof -
    have "(0 + of_nat 1 + of_nat 1 + of_nat 4 + of_nat (sum_list (map solution_size sols)) :: 32 word)
            = of_nat (6 + sum_list (map solution_size sols))"
      by simp
    then show ?thesis by (simp only: unat_of_nat) simp
  qed
  show ?thesis
    unfolding makeSolutionMsg_def Let_def pushBackVal_def [of 4 "unat (0::32 word)"]
      prod.case add_length_pushBackVal fold_pushSolution pushBackVal_at_def snd_conv fst_conv u
    by (simp add: unat_of_nat del: toNetworkEndian.simps)
qed

section \<open>Reading back what an encoder wrote\<close>

lemma unat_word_less32: "unat (w :: 32 word) < 4294967296"
  using unsigned_less [of w, where 'a = nat] by simp

lemma unat_word_less64: "unat (w :: 64 word) < 18446744073709551616"
  using unsigned_less [of w, where 'a = nat] by simp

lemma unat_word_less16: "unat (w :: 16 word) < 65536"
  using unsigned_less [of w, where 'a = nat] by simp

lemma readPrimitive_wire:
  assumes B: "buff = pre @ toNetworkEndian sz v @ post"
    and p: "p = length pre"
    and len: "length buff < 2 ^ 32"
    and v: "v < 256 ^ sz"
  shows "readPrimitive sz buff (reader_at p f) = (v, reader_at (p + sz) f)"
proof -
  have lb: "length buff = p + sz + length post"
    using B p by simp
  have u: "unat (of_nat p :: 32 word) = p"
    using len lb by (simp add: unat_of_nat)
  have t: "take sz (drop p buff) = toNetworkEndian sz v"
    using B p by simp
  have "fromNetworkEndian (take sz (drop p buff)) = v"
    using v by (simp add: t from_toNetworkEndian)
  then show ?thesis
    using u lb by (simp add: readPrimitive_def reader_at_def)
qed

lemma readPrimitive_uint32_t_wire:
  assumes "buff = pre @ toNetworkEndian 4 (unat w) @ post" "p = length pre" "length buff < 2 ^ 32"
  shows "readPrimitive_uint32_t buff (reader_at p f) = (w, reader_at (p + 4) f)"
proof -
  have "readPrimitive 4 buff (reader_at p f) = (unat w, reader_at (p + 4) f)"
    using assms unat_word_less32 [of w] by (intro readPrimitive_wire) simp_all
  then show ?thesis by (simp add: readPrimitive_uint32_t_def)
qed

lemma readPrimitive_uint64_t_wire:
  assumes "buff = pre @ toNetworkEndian 8 (unat w) @ post" "p = length pre" "length buff < 2 ^ 32"
  shows "readPrimitive_uint64_t buff (reader_at p f) = (w, reader_at (p + 8) f)"
proof -
  have "readPrimitive 8 buff (reader_at p f) = (unat w, reader_at (p + 8) f)"
    using assms unat_word_less64 [of w] by (intro readPrimitive_wire) simp_all
  then show ?thesis by (simp add: readPrimitive_uint64_t_def)
qed

lemma readPrimitive_char16_t_wire:
  assumes "buff = pre @ toNetworkEndian 2 (unat w) @ post" "p = length pre" "length buff < 2 ^ 32"
  shows "readPrimitive_char16_t buff (reader_at p f) = (w, reader_at (p + 2) f)"
proof -
  have "readPrimitive 2 buff (reader_at p f) = (unat w, reader_at (p + 2) f)"
    using assms unat_word_less16 [of w] by (intro readPrimitive_wire) simp_all
  then show ?thesis by (simp add: readPrimitive_char16_t_def)
qed

lemma readPrimitive_uint8_t_wire:
  assumes "buff = pre @ toNetworkEndian 1 (unat w) @ post" "p = length pre" "length buff < 2 ^ 32"
  shows "readPrimitive_uint8_t buff (reader_at p f) = (w, reader_at (p + 1) f)"
proof -
  have "readPrimitive 1 buff (reader_at p f) = (unat w, reader_at (p + 1) f)"
    using assms unat_byte_less [of w] by (intro readPrimitive_wire) simp_all
  then show ?thesis by (simp add: readPrimitive_uint8_t_def)
qed

lemma length_wire_utf16 [simp]: "length (wire_utf16 s) = 2 * length s"
  by (induction s) (simp_all add: wire_utf16_def)

lemma wire_utf16_Cons: "wire_utf16 (c # s) = toNetworkEndian 2 (unat c) @ wire_utf16 s"
  by (simp add: wire_utf16_def)

lemma readUTF16_wire:
  assumes "buff = pre @ wire_utf16 s @ post" "p = length pre" "length buff < 2 ^ 32"
  shows "readUTF16 (length s) buff (reader_at p f) = (s, reader_at (p + 2 * length s) f)"
  using assms
proof (induction s arbitrary: pre p)
  case Nil
  then show ?case by simp
next
  case (Cons c s)
  have 1: "readPrimitive_char16_t buff (reader_at p f) = (c, reader_at (p + 2) f)"
    using Cons.prems
    by (intro readPrimitive_char16_t_wire [where pre = pre and post = "wire_utf16 s @ post"])
      (simp_all add: wire_utf16_Cons)
  have 2: "readUTF16 (length s) buff (reader_at (p + 2) f) = (s, reader_at (p + 2 + 2 * length s) f)"
    using Cons.prems
    by (intro Cons.IH [where pre = "pre @ toNetworkEndian 2 (unat c)"])
      (simp_all add: wire_utf16_Cons)
  show ?case
    using 1 2 by (simp add: add.assoc)
qed

lemma readSizedUTF16_wire:
  assumes B: "buff = pre @ wire_sized_utf16 s @ post" and p: "p = length pre"
    and len: "length buff < 2 ^ 32"
  shows "readSizedUTF16 buff (reader_at p f) = (s, reader_at (p + (4 + 2 * length s)) f)"
proof -
  let ?L = "of_nat (length s * 2) :: 32 word"
  have small: "length s * 2 < 2 ^ 32"
    using B len by (simp add: wire_sized_utf16_def)
  have uL: "unat ?L = length s * 2"
    using small by (simp only: unat_of_nat) simp
  have 1: "readPrimitive_uint32_t buff (reader_at p f) = (?L, reader_at (p + 4) f)"
    using B p len uL
    by (intro readPrimitive_uint32_t_wire [where pre = pre and post = "wire_utf16 s @ post"])
      (simp_all add: wire_sized_utf16_def del: of_nat_mult)
  have d: "unat (?L div 2) = length s"
    by (simp only: unat_div uL) simp
  have 2: "readUTF16 (length s) buff (reader_at (p + 4) f) = (s, reader_at (p + 4 + 2 * length s) f)"
    using B p len
    by (intro readUTF16_wire [where pre = "pre @ toNetworkEndian 4 (length s * 2 mod 2 ^ 32)" and post = post])
      (simp_all add: wire_sized_utf16_def)
  show ?thesis
    unfolding readSizedUTF16_def Let_def 1 prod.case d 2 by (simp add: add.assoc)
qed

lemma readSizedVector_loop_wire:
  assumes "buff = pre @ bs @ post" "p = length pre" "length buff < 2 ^ 32"
  shows "readSizedVector_loop (length bs) buff (reader_at p f) = (bs, reader_at (p + length bs) f)"
  using assms
proof (induction bs arbitrary: pre p)
  case Nil
  then show ?case by simp
next
  case (Cons c bs)
  have u: "unat (cur_index (reader_at p f)) = p"
    using Cons.prems by (simp add: reader_at_def unat_of_nat)
  have fits: "unat (cur_index (reader_at p f)) + 1 \<le> length buff"
    unfolding u using Cons.prems by simp
  have 1: "readPrimitive_uint8_t buff (reader_at p f) = (c, reader_at (p + 1) f)"
    using Cons.prems
    by (intro readPrimitive_uint8_t_wire [where pre = pre and post = "bs @ post"]) simp_all
  have 2: "readSizedVector_loop (length bs) buff (reader_at (p + 1) f) = (bs, reader_at (p + 1 + length bs) f)"
    using Cons.prems
    by (intro Cons.IH [where pre = "pre @ [c]"]) simp_all
  show ?case
    using fits 1 2 by (simp add: add.assoc)
qed

lemma readSizedVector_wire:
  assumes B: "buff = pre @ wire_sized_bytes bs @ post" and p: "p = length pre"
    and len: "length buff < 2 ^ 32"
  shows "readSizedVector buff (reader_at p f) = (bs, reader_at (p + (4 + length bs)) f)"
proof -
  let ?L = "of_nat (length bs) :: 32 word"
  have small: "length bs < 2 ^ 32"
    using B len by (simp add: wire_sized_bytes_def)
  have uL: "unat ?L = length bs"
    using small by (simp only: unat_of_nat) simp
  have 1: "readPrimitive_uint32_t buff (reader_at p f) = (?L, reader_at (p + 4) f)"
    using B p len uL
    by (intro readPrimitive_uint32_t_wire [where pre = pre and post = "bs @ post"])
      (simp_all add: wire_sized_bytes_def)
  have d: "unat (?L div 1) = length bs"
    by (simp add: uL)
  have 2: "readSizedVector_loop (length bs) buff (reader_at (p + 4) f) = (bs, reader_at (p + 4 + length bs) f)"
    using B p len
    by (intro readSizedVector_loop_wire [where pre = "pre @ toNetworkEndian 4 (length bs mod 2 ^ 32)" and post = post])
      (simp_all add: wire_sized_bytes_def)
  show ?thesis
    unfolding readSizedVector_def Let_def 1 prod.case d 2 by (simp add: add.assoc)
qed

lemma length_wire_sized_utf16 [simp]: "length (wire_sized_utf16 s) = 4 + 2 * length s"
  by (simp add: wire_sized_utf16_def)

lemma length_wire_sized_bytes [simp]: "length (wire_sized_bytes bs) = 4 + length bs"
  by (simp add: wire_sized_bytes_def)

lemma length_wire_solution [simp]: "length (wire_solution sd) = solution_size sd"
  by (simp add: wire_solution_def solution_size_def)

lemma length_concat_wire_solution [simp]:
  "length (concat (map wire_solution sols)) = sum_list (map solution_size sols)"
  by (induction sols) simp_all

lemma length_le_solution_sizes: "length sols \<le> sum_list (map solution_size sols)"
  by (induction sols) (simp_all add: solution_size_def)

lemma decodeSolution_loop_wire:
  assumes "buff = pre @ concat (map wire_solution sols) @ post" "p = length pre"
    "length buff < 2 ^ 32"
  shows "decodeSolution_loop (length sols) buff (reader_at p f)
           = (sols, reader_at (p + sum_list (map solution_size sols)) f)"
  using assms
proof (induction sols arbitrary: pre p)
  case Nil
  then show ?case by simp
next
  case (Cons sd sols)
  let ?e1 = "toNetworkEndian 4 (unat (type_alias' sd))"
  let ?e2 = "toNetworkEndian 8 (unat (time sd))"
  let ?e3 = "wire_sized_utf16 (target sd)"
  let ?e4 = "wire_sized_bytes (data sd)"
  let ?rest = "concat (map wire_solution sols) @ post"
  have B: "buff = pre @ ?e1 @ ?e2 @ ?e3 @ ?e4 @ ?rest"
    using Cons.prems(1) by (simp add: wire_solution_def [of sd])
  have len: "length buff < 2 ^ 32" by (rule Cons.prems(3))
  have 1: "readPrimitive_uint32_t buff (reader_at p f) = (type_alias' sd, reader_at (p + 4) f)"
    using B Cons.prems(2) len
    by (intro readPrimitive_uint32_t_wire [where pre = pre and post = "?e2 @ ?e3 @ ?e4 @ ?rest"])
      simp_all
  have 2: "readPrimitive_uint64_t buff (reader_at (p + 4) f) = (time sd, reader_at (p + 4 + 8) f)"
    using B Cons.prems(2) len
    by (intro readPrimitive_uint64_t_wire [where pre = "pre @ ?e1" and post = "?e3 @ ?e4 @ ?rest"])
      simp_all
  have 3: "readSizedUTF16 buff (reader_at (p + 4 + 8) f)
             = (target sd, reader_at (p + 4 + 8 + (4 + 2 * length (target sd))) f)"
    using B Cons.prems(2) len
    by (intro readSizedUTF16_wire [where pre = "pre @ ?e1 @ ?e2" and post = "?e4 @ ?rest"])
      simp_all
  have 4: "readSizedVector buff (reader_at (p + 4 + 8 + (4 + 2 * length (target sd))) f)
             = (data sd, reader_at (p + 4 + 8 + (4 + 2 * length (target sd)) + (4 + length (data sd))) f)"
    using B Cons.prems(2) len
    by (intro readSizedVector_wire [where pre = "pre @ ?e1 @ ?e2 @ ?e3" and post = ?rest])
      simp_all
  have q: "p + 4 + 8 + (4 + 2 * length (target sd)) + (4 + length (data sd)) = p + solution_size sd"
    by (simp add: solution_size_def)
  have 5: "decodeSolution_loop (length sols) buff (reader_at (p + solution_size sd) f)
             = (sols, reader_at (p + solution_size sd + sum_list (map solution_size sols)) f)"
    using Cons.prems
    by (intro Cons.IH [where pre = "pre @ wire_solution sd"]) simp_all
  have "decodeSolution_loop (Suc (length sols)) buff (reader_at p f)
          = (\<lparr>type_alias' = type_alias' sd, time = time sd, target = target sd, data = data sd\<rparr> # sols,
             reader_at (p + solution_size sd + sum_list (map solution_size sols)) f)"
    unfolding decodeSolution_loop.simps Let_def 1 prod.case 2 3 4 q 5 ..
  then show ?case by (simp add: add.assoc)
qed

text \<open>
  Claim C2. Decoding the frame that \<open>makeSolutionMsg\<close> builds gives back the flag and
  the list of solutions, in order and byte for byte, for every list of solutions whose
  frame fits the 32 bits of its length field.
\<close>

theorem solution_roundtrip:
  assumes fit: "solutions_fit solutions"
  shows "decodeSolutionMsg (makeSolutionMsg create_uris solutions) = (create_uris, solutions)"
proof -
  let ?S = "sum_list (map solution_size solutions)"
  let ?T = "of_nat (6 + ?S) :: 32 word"
  let ?c = "(if create_uris then 1 else 0) :: byte"
  let ?n = "of_nat (length solutions) :: 32 word"
  let ?e0 = "toNetworkEndian 4 (unat ?T)"
  let ?e1 = "toNetworkEndian 1 (unat solver_data)"
  let ?e2 = "toNetworkEndian 1 (unat ?c)"
  let ?e3 = "toNetworkEndian 4 (unat ?n)"
  let ?body = "concat (map wire_solution solutions)"
  let ?B = "makeSolutionMsg create_uris solutions"
  have S: "10 + ?S < 2 ^ 32"
    using fit by (simp add: solutions_fit_def)
  have uT: "unat ?T = 6 + ?S"
    using S by (simp only: unat_of_nat) simp
  have un: "unat ?n = length solutions"
    using S length_le_solution_sizes [of solutions] by (simp only: unat_of_nat) simp
  have uc: "unat ?c = (if create_uris then 1 else 0)"
    by simp
  have B: "?B = ?e0 @ ?e1 @ ?e2 @ ?e3 @ ?body"
    unfolding makeSolutionMsg_wire uT un uc using S length_le_solution_sizes [of solutions]
    by simp
  have lenB: "length ?B = 10 + ?S"
    unfolding B by simp
  have len: "length ?B < 2 ^ 32"
    using S lenB by simp
  have r0: "BuffReader_new = reader_at 0 False"
    by (simp add: BuffReader_new_def reader_at_def)
  have 1: "readPrimitive_uint32_t ?B (reader_at 0 False) = (?T, reader_at (0 + 4) False)"
    using B len
    by (intro readPrimitive_uint32_t_wire [where pre = "[]" and post = "?e1 @ ?e2 @ ?e3 @ ?body"])
      simp_all
  have 2: "readPrimitive_uint8_t ?B (reader_at (0 + 4) False) = (solver_data, reader_at (0 + 4 + 1) False)"
    using B len
    by (intro readPrimitive_uint8_t_wire [where pre = "?e0" and post = "?e2 @ ?e3 @ ?body"])
      simp_all
  have 3: "readPrimitive_uint8_t ?B (reader_at (0 + 4 + 1) False) = (?c, reader_at (0 + 4 + 1 + 1) False)"
    using B len
    by (intro readPrimitive_uint8_t_wire [where pre = "?e0 @ ?e1" and post = "?e3 @ ?body"])
      simp_all
  have 4: "readPrimitive_uint32_t ?B (reader_at (0 + 4 + 1 + 1) False) = (?n, reader_at (0 + 4 + 1 + 1 + 4) False)"
    using B len
    by (intro readPrimitive_uint32_t_wire [where pre = "?e0 @ ?e1 @ ?e2" and post = "?body"])
      simp_all
  have 5: "decodeSolution_loop (length solutions) ?B (reader_at (0 + 4 + 1 + 1 + 4) False)
             = (solutions, reader_at (0 + 4 + 1 + 1 + 4 + ?S) False)"
    using B len
    by (intro decodeSolution_loop_wire [where pre = "?e0 @ ?e1 @ ?e2 @ ?e3" and post = "[]"])
      simp_all
  have chk: "length ?B = unat (?T + 4)"
  proof -
    have "?T + 4 = of_nat (10 + ?S)" by simp
    then have "unat (?T + 4) = 10 + ?S"
      using S by (simp only: unat_of_nat) simp
    then show ?thesis using lenB by simp
  qed
  have cu: "(?c = 1) = create_uris"
    by simp
  have "decodeSolutionMsg ?B =
          (if outOfRange (reader_at (0 + 4 + 1 + 1 + 4 + ?S) False) then (False, [])
           else (create_uris, solutions))"
    unfolding decodeSolutionMsg_def decodeSolutionMsg_parse_def Let_def r0 1 prod.case 2 3 4 un 5
    using chk cu by simp
  then show ?thesis
    by (simp add: outOfRange_def reader_at_def)
qed

theorem solution_roundtrip_witness:
  "solutions_fit
     [\<lparr>type_alias' = 5, time = 77, target = [97], data = [1, 2, 3]\<rparr>,
      \<lparr>type_alias' = 6, time = 78, target = [], data = [9]\<rparr>] \<and>
   decodeSolutionMsg (makeSolutionMsg True
     [\<lparr>type_alias' = 5, time = 77, target = [97], data = [1, 2, 3]\<rparr>,
      \<lparr>type_alias' = 6, time = 78, target = [], data = [9]\<rparr>])
   = (True,
     [\<lparr>type_alias' = 5, time = 77, target = [97], data = [1, 2, 3]\<rparr>,
      \<lparr>type_alias' = 6, time = 78, target = [], data = [9]\<rparr>])"
proof -
  have h: "solutions_fit
     [\<lparr>type_alias' = 5, time = 77, target = [97], data = [1, 2, 3]\<rparr>,
      \<lparr>type_alias' = 6, time = 78, target = [], data = [9]\<rparr>]"
    by (simp add: solutions_fit_def solution_size_def)
  show ?thesis
    using h solution_roundtrip [OF h, of True] by simp
qed

section \<open>The scenarios of the client protocol\<close>

lemma fold_pushBackSizedUTF16:
  "fold (\<lambda>a. add_length (pushBackSizedUTF16 a)) strs (n, b)
     = (n + of_nat (sum_list (map (\<lambda>a. 4 + 2 * length a) strs)),
        b @ concat (map wire_sized_utf16 strs))"
  by (induction strs arbitrary: n b) (simp_all add: pushBackSizedUTF16_eq)

lemma makeSnapshotRequest_wire:
  "\<exists>len. makeSnapshotRequest request ticket =
     toNetworkEndian 4 len @
     toNetworkEndian 1 (unat snapshot_request) @ toNetworkEndian 4 (unat ticket) @
     wire_sized_utf16 (Request.object_uri request) @
     toNetworkEndian 4 (length (Request.attributes request) mod 2 ^ 32) @
     concat (map wire_sized_utf16 (Request.attributes request)) @
     toNetworkEndian 8 (unat (start request)) @ toNetworkEndian 8 (unat (stop_period request))"
  unfolding makeSnapshotRequest_def Let_def pushBackVal_def [of 4 "unat (0::32 word)"]
    prod.case add_length_pushBackVal pushBackSizedUTF16_eq fold_pushBackSizedUTF16
    pushBackVal_at_def snd_conv fst_conv
  by (auto simp add: unat_of_nat simp del: toNetworkEndian.simps)

lemma length_makeSnapshotRequest:
  "length (makeSnapshotRequest request ticket) =
     33 + 2 * length (Request.object_uri request)
        + sum_list (map (\<lambda>a. 4 + 2 * length a) (Request.attributes request))"
proof -
  have c: "length (concat (map wire_sized_utf16 strs)) = sum_list (map (\<lambda>a. 4 + 2 * length a) strs)" for strs
    by (induction strs) simp_all
  obtain len where "makeSnapshotRequest request ticket =
     toNetworkEndian 4 len @
     toNetworkEndian 1 (unat snapshot_request) @ toNetworkEndian 4 (unat ticket) @
     wire_sized_utf16 (Request.object_uri request) @
     toNetworkEndian 4 (length (Request.attributes request) mod 2 ^ 32) @
     concat (map wire_sized_utf16 (Request.attributes request)) @
     toNetworkEndian 8 (unat (start request)) @ toNetworkEndian 8 (unat (stop_period request))"
    using makeSnapshotRequest_wire by blast
  then show ?thesis by (simp add: c)
qed

lemma makeSnapshotRequest_id: "makeSnapshotRequest request ticket ! 4 = snapshot_request"
proof -
  obtain len rest where "makeSnapshotRequest request ticket =
     toNetworkEndian 4 len @ toNetworkEndian 1 (unat snapshot_request) @ rest"
    using makeSnapshotRequest_wire by blast
  then show ?thesis
    by (simp add: nth_append)
qed

text \<open>
  Claim C9. The snapshot request with ticket 7, the object URI of six code units, the
  attributes of eight and two code units and the two times is encoded in
  \<open>4 + 1 + 4 + (4 + 12) + 4 + (4 + 16) + (4 + 4) + 8 + 8 = 73\<close> bytes, not 79, and its
  byte at offset 4 is 1.
\<close>

theorem makeSnapshotRequest_scenario:
  "length (makeSnapshotRequest lamp_request 7) = 73 \<and> makeSnapshotRequest lamp_request 7 ! 4 = 1"
  by (simp add: length_makeSnapshotRequest makeSnapshotRequest_id lamp_request_def lamp_uri_def
      location_attribute_def on_attribute_def snapshot_request_def)

theorem makeSnapshotRequest_scenario_counterexample:
  "length (makeSnapshotRequest lamp_request 7) \<noteq> 79"
  by (simp add: length_makeSnapshotRequest lamp_request_def lamp_uri_def
      location_attribute_def on_attribute_def)

text \<open>
  Claim C3. \<open>makeURISearchResponse\<close> writes no URI count, \<open>decodeURISearchResponse\<close>
  reads one: for the single URI of one code unit the length prefix of the string is
  taken for the count, the reads run past the buffer and the decoder returns the empty
  list. The same URI after a count of 1 is decoded as expected.
\<close>

theorem uri_search_response_roundtrip_fails:
  "makeURISearchResponse [uri_a] = [0, 0, 0, 7, 10, 0, 0, 0, 2, 0, 97] \<and>
   decodeURISearchResponse (makeURISearchResponse [uri_a]) = [] \<and>
   decodeURISearchResponse (makeURISearchResponse [uri_a]) \<noteq> [uri_a] \<and>
   decodeURISearchResponse [0, 0, 0, 11, 10, 0, 0, 0, 1, 0, 0, 0, 2, 0, 97] = [uri_a]"
  by code_simp

section \<open>Properties of the receiver\<close>

lemma piece_length_short: "length pu < 4 \<Longrightarrow> piece_length_of pu = 4"
  by (simp add: piece_length_of_def readPrimitive_at_def)

text \<open>
  Claim C8. With \<open>interrupted\<close> set on entry \<open>messageAvailable\<close> asks nothing of the
  socket (the receiver is returned as it was) and returns whether the pending bytes
  already hold a complete frame: true in that case, not false.
\<close>

theorem messageAvailable_interrupted:
  "messageAvailable True mr =
     Returns (4 \<le> length (previous_unfinished mr) \<and>
              unat (piece_length_of (previous_unfinished mr)) \<le> length (previous_unfinished mr)) mr"
proof (cases "length (previous_unfinished mr) < 4")
  case True
  then show ?thesis
    by (simp add: messageAvailable_def piece_length_short)
next
  case False
  then show ?thesis
    by (simp add: messageAvailable_def)
qed

theorem messageAvailable_interrupted_counterexample:
  "messageAvailable True \<lparr>previous_unfinished = [0, 0, 0, 1, 0], polls = [Ready], recvs = [Received [1]]\<rparr>
     = Returns True \<lparr>previous_unfinished = [0, 0, 0, 1, 0], polls = [Ready], recvs = [Received [1]]\<rparr>"
  by code_simp

lemma getNextMessage_loop_done:
  "\<not> (\<not> interrupted \<and> (length pu < 4 \<or> length pu < unat pl))
     \<Longrightarrow> getNextMessage_loop interrupted pl pu es = Some (False, pu, es)"
  by (cases es) auto

lemma readPrimitive_at_huge: "readPrimitive_at 4 huge_pending 0 = 4294967295"
  by (simp add: readPrimitive_at_def huge_pending_def fromNetworkEndian_def)

text \<open>
  Claim C7. When the pending bytes hold a complete frame and \<open>interrupted\<close> is false,
  \<open>getNextMessage\<close> returns the first \<open>length + 4\<close> bytes and keeps the rest, without
  a call to the socket, provided \<open>length + 4\<close> can be written in the 32 bits of
  \<open>piece_length\<close>. For a length prefix of \<open>2 ^ 32 - 1\<close> the sum wraps to 3, and three
  bytes are returned whatever follows.
\<close>

theorem getNextMessage_complete_frame:
  assumes four: "4 \<le> length (previous_unfinished mr)"
    and whole: "4 + readPrimitive_at 4 (previous_unfinished mr) 0 \<le> length (previous_unfinished mr)"
    and fits: "readPrimitive_at 4 (previous_unfinished mr) 0 + 4 < 2 ^ 32"
  shows "getNextMessage False mr =
           Returns (take (readPrimitive_at 4 (previous_unfinished mr) 0 + 4) (previous_unfinished mr))
             (mr\<lparr>previous_unfinished :=
                  drop (readPrimitive_at 4 (previous_unfinished mr) 0 + 4) (previous_unfinished mr)\<rparr>)"
proof -
  let ?pu = "previous_unfinished mr"
  let ?L = "readPrimitive_at 4 ?pu 0"
  have "piece_length_of ?pu = of_nat (?L + 4)"
    by (simp add: piece_length_of_def)
  then have u: "unat (piece_length_of ?pu) = ?L + 4"
    using fits by (simp only: unat_of_nat) simp
  have loop: "getNextMessage_loop False (piece_length_of ?pu) ?pu (recvs mr) = Some (False, ?pu, recvs mr)"
    using four whole u by (intro getNextMessage_loop_done) simp
  have same: "mr\<lparr>previous_unfinished := ?pu, recvs := recvs mr\<rparr> = mr"
    by simp
  show ?thesis
  proof (cases "?L + 4 < length ?pu")
    case True
    then show ?thesis
      using four by (simp add: getNextMessage_def loop u same Let_def)
  next
    case False
    with whole have "length ?pu = ?L + 4" by simp
    then show ?thesis
      using four by (simp add: getNextMessage_def loop u same Let_def)
  qed
qed

theorem getNextMessage_complete_frame_witness:
  "4 \<le> length [0, 0, 0, 1, 7, 0, 0 :: byte] \<and>
   4 + readPrimitive_at 4 [0, 0, 0, 1, 7, 0, 0] 0 \<le> length [0, 0, 0, 1, 7, 0, 0 :: byte] \<and>
   readPrimitive_at 4 [0, 0, 0, 1, 7, 0, 0] 0 + 4 < 2 ^ 32 \<and>
   getNextMessage False \<lparr>previous_unfinished = [0, 0, 0, 1, 7, 0, 0], polls = [], recvs = []\<rparr>
     = Returns [0, 0, 0, 1, 7] \<lparr>previous_unfinished = [0, 0], polls = [], recvs = []\<rparr>"
proof -
  let ?mr = "\<lparr>previous_unfinished = [0, 0, 0, 1, 7, 0, 0 :: byte], polls = [], recvs = []\<rparr>"
  have L: "readPrimitive_at 4 [0, 0, 0, 1, 7, 0, 0] 0 = 1"
    by (simp add: readPrimitive_at_def fromNetworkEndian_def)
  have a: "4 \<le> length (previous_unfinished ?mr)" by simp
  have b: "4 + readPrimitive_at 4 (previous_unfinished ?mr) 0 \<le> length (previous_unfinished ?mr)"
    by (simp add: L)
  have c: "readPrimitive_at 4 (previous_unfinished ?mr) 0 + 4 < 2 ^ 32"
    by (simp add: L)
  have "getNextMessage False ?mr = Returns [0, 0, 0, 1, 7] (?mr\<lparr>previous_unfinished := [0, 0]\<rparr>)"
    using getNextMessage_complete_frame [OF a b c] by (simp add: L)
  then show ?thesis
    by (simp add: L)
qed

theorem getNextMessage_complete_frame_counterexample:
  "4 \<le> length huge_pending \<and>
   4 + readPrimitive_at 4 huge_pending 0 \<le> length huge_pending \<and>
   getNextMessage False \<lparr>previous_unfinished = huge_pending, polls = [], recvs = []\<rparr>
     = Returns [255, 255, 255]
         \<lparr>previous_unfinished = 255 # replicate (2 ^ 32) 0, polls = [], recvs = []\<rparr>"
proof -
  have p: "piece_length_of huge_pending = 3"
    by (simp add: piece_length_of_def readPrimitive_at_huge)
  have l: "length huge_pending = 4294967300"
    by (simp add: huge_pending_def)
  have t: "take 3 huge_pending = [255, 255, 255]" "drop 3 huge_pending = 255 # replicate (2 ^ 32) 0"
    by (simp_all add: huge_pending_def)
  have loop: "getNextMessage_loop False 3 huge_pending [] = Some (False, huge_pending, [])"
    by (simp add: l)
  show ?thesis
    by (simp add: getNextMessage_def p l t loop readPrimitive_at_huge Let_def)
qed

section \<open>Decoders that write to their buffer\<close>

lemma declared_length_read:
  "4 \<le> length buff \<Longrightarrow>
     readPrimitive_uint32_t buff BuffReader_new
       = (declared_length buff, \<lparr>buff_i = 4, out_of_range = False, cur_index = 4\<rparr>)"
  by (simp add: declared_length_def readPrimitive_uint32_t_def readPrimitive_def BuffReader_new_def)

lemma take_one_drop: "n < length xs \<Longrightarrow> take (Suc 0) (drop n xs) = [xs ! n]"
  by (simp add: take_Suc_conv_app_nth)

lemma message_id_read:
  "5 \<le> length buff \<Longrightarrow>
     readPrimitive_uint8_t buff \<lparr>buff_i = 4, out_of_range = False, cur_index = 4\<rparr>
       = (buff ! 4, \<lparr>buff_i = 5, out_of_range = False, cur_index = 5\<rparr>)"
  by (simp add: readPrimitive_uint8_t_def readPrimitive_def take_one_drop fromNetworkEndian_def)

lemma message_id_nth: "5 \<le> length buff \<Longrightarrow> message_id buff = buff ! 4"
proof -
  assume a: "5 \<le> length buff"
  then have "4 \<le> length buff" by simp
  then show ?thesis
    using a by (simp add: message_id_def declared_length_read message_id_read)
qed


lemma accepted_header:
  assumes acc: "frame_accepted buff kind" and k: "kind \<noteq> 0"
  shows "5 \<le> length buff \<and> length buff < 2 ^ 32"
proof -
  have len: "length buff = unat (declared_length buff + 4)" and mid: "message_id buff = kind"
    using acc by (simp_all add: frame_accepted_def)
  have small: "length buff < 2 ^ 32"
    using len unat_word_less32 [of "declared_length buff + 4"] by simp
  have "\<not> length buff < 4"
  proof
    assume "length buff < 4"
    then have "declared_length buff = 0"
      by (simp add: declared_length_def readPrimitive_uint32_t_def readPrimitive_def
          BuffReader_new_def)
    with len \<open>length buff < 4\<close> show False by simp
  qed
  moreover have "length buff \<noteq> 4"
  proof
    assume 4: "length buff = 4"
    then have "message_id buff = 0"
      by (simp add: message_id_def readPrimitive_uint32_t_def readPrimitive_uint8_t_def
          readPrimitive_def BuffReader_new_def)
    with mid k show False by simp
  qed
  ultimately show ?thesis using small by simp
qed




lemma decodeStopOnDemand_untouched:
  assumes "\<not> (5 \<le> length buff \<and> buff ! 4 = stop_on_demand \<and>
    length buff = unat (declared_length buff + 4))"
  shows "decodeStopOnDemand buff = ([], buff)"
proof (cases "5 \<le> length buff")
  case True
  then have "message_id buff = buff ! 4"
    by (simp add: message_id_nth)
  then show ?thesis
    using assms True
    by (auto simp add: decodeStopOnDemand_def declared_length_def message_id_def
        split_beta Let_def)
next
  case False
  have "stop_on_demand \<noteq> 0" by (simp add: stop_on_demand_def)
  then have "\<not> frame_accepted buff stop_on_demand"
    using False accepted_header [of buff stop_on_demand] by auto
  then show ?thesis
    by (auto simp add: decodeStopOnDemand_def frame_accepted_def declared_length_def
        message_id_def split_beta Let_def)
qed

text \<open>
  Claim C10. On a buffer of at least five bytes with the \<open>range_request\<close> identifier at
  offset 4, \<open>decodeRangeRequest\<close> overwrites that byte with the \<open>snapshot_request\<close>
  identifier, decodes the patched buffer as a snapshot request and leaves the caller
  with the patched buffer, every other byte unchanged. \<open>decodeStopOnDemand\<close> does the
  same with the \<open>start_on_demand\<close> identifier on a buffer of at least five bytes with the
  \<open>stop_on_demand\<close> identifier at offset 4 whose declared length is the buffer length
  minus 4. On every other buffer it returns the empty list and leaves the buffer as it
  was: the counterexample is a buffer of nine bytes with the \<open>stop_on_demand\<close>
  identifier at offset 4 that declares six bytes.
\<close>

theorem decode_patches_byte_four:
  "(5 \<le> length buff \<and> buff ! 4 = range_request \<longrightarrow>
      decodeRangeRequest uninit buff
        = (decodeSnapshotRequest uninit (buff[4 := snapshot_request]), buff[4 := snapshot_request]) \<and>
      snd (decodeRangeRequest uninit buff) ! 4 = snapshot_request \<and>
      length (snd (decodeRangeRequest uninit buff)) = length buff \<and>
      (\<forall>i < length buff. i \<noteq> 4 \<longrightarrow> snd (decodeRangeRequest uninit buff) ! i = buff ! i)) \<and>
   (5 \<le> length buff \<and> buff ! 4 = stop_on_demand \<and> length buff = unat (declared_length buff + 4) \<longrightarrow>
      decodeStopOnDemand buff
        = (decodeStartOnDemand (buff[4 := start_on_demand]), buff[4 := start_on_demand]) \<and>
      snd (decodeStopOnDemand buff) ! 4 = start_on_demand \<and>
      length (snd (decodeStopOnDemand buff)) = length buff \<and>
      (\<forall>i < length buff. i \<noteq> 4 \<longrightarrow> snd (decodeStopOnDemand buff) ! i = buff ! i)) \<and>
   (\<not> (5 \<le> length buff \<and> buff ! 4 = stop_on_demand \<and>
        length buff = unat (declared_length buff + 4)) \<longrightarrow>
      decodeStopOnDemand buff = ([], buff))"
proof (intro conjI impI)
  assume a: "5 \<le> length buff \<and> buff ! 4 = range_request"
  then show r: "decodeRangeRequest uninit buff
        = (decodeSnapshotRequest uninit (buff[4 := snapshot_request]), buff[4 := snapshot_request])"
    by (simp add: decodeRangeRequest_def Let_def)
  from a show "snd (decodeRangeRequest uninit buff) ! 4 = snapshot_request"
    unfolding r by simp
  show "length (snd (decodeRangeRequest uninit buff)) = length buff"
    unfolding r by simp
  show "\<forall>i < length buff. i \<noteq> 4 \<longrightarrow> snd (decodeRangeRequest uninit buff) ! i = buff ! i"
    unfolding r by simp
next
  assume a: "5 \<le> length buff \<and> buff ! 4 = stop_on_demand \<and> length buff = unat (declared_length buff + 4)"
  then have 4: "4 \<le> length buff" by simp
  from a show r: "decodeStopOnDemand buff
        = (decodeStartOnDemand (buff[4 := start_on_demand]), buff[4 := start_on_demand])"
    unfolding decodeStopOnDemand_def Let_def declared_length_read [OF 4] prod.case
    by (simp add: message_id_read Let_def)
  from a show "snd (decodeStopOnDemand buff) ! 4 = start_on_demand"
    unfolding r by simp
  show "length (snd (decodeStopOnDemand buff)) = length buff"
    unfolding r by simp
  show "\<forall>i < length buff. i \<noteq> 4 \<longrightarrow> snd (decodeStopOnDemand buff) ! i = buff ! i"
    unfolding r by simp
next
  assume "\<not> (5 \<le> length buff \<and> buff ! 4 = stop_on_demand \<and>
        length buff = unat (declared_length buff + 4))"
  then show "decodeStopOnDemand buff = ([], buff)"
    by (rule decodeStopOnDemand_untouched)
qed

theorem decode_patches_byte_four_counterexample:
  "5 \<le> length [0, 0, 0, 6, 3, 0, 0, 0, 0 :: byte] \<and>
   [0, 0, 0, 6, 3, 0, 0, 0, 0 :: byte] ! 4 = stop_on_demand \<and>
   snd (decodeStopOnDemand [0, 0, 0, 6, 3, 0, 0, 0, 0]) ! 4 = stop_on_demand \<and>
   snd (decodeStopOnDemand [0, 0, 0, 6, 3, 0, 0, 0, 0]) ! 4 \<noteq> start_on_demand \<and>
   decodeStopOnDemand [0, 0, 0, 6, 3, 0, 0, 0, 0] = ([], [0, 0, 0, 6, 3, 0, 0, 0, 0])"
  by (simp add: decodeStopOnDemand_def readPrimitive_uint32_t_def readPrimitive_uint8_t_def
      readPrimitive_def BuffReader_new_def fromNetworkEndian_def stop_on_demand_def
      start_on_demand_def)

theorem decode_patches_byte_four_witness:
  "5 \<le> length [0, 0, 0, 1, 2 :: byte] \<and> [0, 0, 0, 1, 2 :: byte] ! 4 = range_request \<and>
   snd (decodeRangeRequest Request_empty [0, 0, 0, 1, 2]) = [0, 0, 0, 1, 1] \<and>
   5 \<le> length [0, 0, 0, 5, 3, 0, 0, 0, 0 :: byte] \<and>
   [0, 0, 0, 5, 3, 0, 0, 0, 0 :: byte] ! 4 = stop_on_demand \<and>
   length [0, 0, 0, 5, 3, 0, 0, 0, 0 :: byte] = unat (declared_length [0, 0, 0, 5, 3, 0, 0, 0, 0] + 4) \<and>
   snd (decodeStopOnDemand [0, 0, 0, 5, 3, 0, 0, 0, 0]) = [0, 0, 0, 5, 2, 0, 0, 0, 0] \<and>
   \<not> (5 \<le> length [0, 0, 0, 6, 3, 0, 0, 0, 0 :: byte] \<and>
      [0, 0, 0, 6, 3, 0, 0, 0, 0 :: byte] ! 4 = stop_on_demand \<and>
      length [0, 0, 0, 6, 3, 0, 0, 0, 0 :: byte]
        = unat (declared_length [0, 0, 0, 6, 3, 0, 0, 0, 0] + 4)) \<and>
   snd (decodeStopOnDemand [0, 0, 0, 6, 3, 0, 0, 0, 0]) = [0, 0, 0, 6, 3, 0, 0, 0, 0]"
proof -
  have d: "declared_length [0, 0, 0, 5, 3, 0, 0, 0, 0] = 5"
    by (simp add: declared_length_def readPrimitive_uint32_t_def readPrimitive_def
        BuffReader_new_def fromNetworkEndian_def)
  have e: "declared_length [0, 0, 0, 6, 3, 0, 0, 0, 0] = 6"
    by (simp add: declared_length_def readPrimitive_uint32_t_def readPrimitive_def
        BuffReader_new_def fromNetworkEndian_def)
  have h1: "5 \<le> length [0, 0, 0, 1, 2 :: byte] \<and> [0, 0, 0, 1, 2 :: byte] ! 4 = range_request"
    by (simp add: range_request_def)
  have h2: "5 \<le> length [0, 0, 0, 5, 3, 0, 0, 0, 0 :: byte] \<and>
     [0, 0, 0, 5, 3, 0, 0, 0, 0 :: byte] ! 4 = stop_on_demand \<and>
     length [0, 0, 0, 5, 3, 0, 0, 0, 0 :: byte] = unat (declared_length [0, 0, 0, 5, 3, 0, 0, 0, 0] + 4)"
    unfolding d by (simp add: stop_on_demand_def)
  have h3: "\<not> (5 \<le> length [0, 0, 0, 6, 3, 0, 0, 0, 0 :: byte] \<and>
      [0, 0, 0, 6, 3, 0, 0, 0, 0 :: byte] ! 4 = stop_on_demand \<and>
      length [0, 0, 0, 6, 3, 0, 0, 0, 0 :: byte]
        = unat (declared_length [0, 0, 0, 6, 3, 0, 0, 0, 0] + 4))"
    unfolding e by simp
  have t1: "decodeRangeRequest Request_empty [0, 0, 0, 1, 2]
        = (decodeSnapshotRequest Request_empty ([0, 0, 0, 1, 2][4 := snapshot_request]),
           [0, 0, 0, 1, 2][4 := snapshot_request])"
    using decode_patches_byte_four [of "[0, 0, 0, 1, 2]" Request_empty] h1 by blast
  have t2: "decodeStopOnDemand [0, 0, 0, 5, 3, 0, 0, 0, 0]
        = (decodeStartOnDemand ([0, 0, 0, 5, 3, 0, 0, 0, 0][4 := start_on_demand]),
           [0, 0, 0, 5, 3, 0, 0, 0, 0][4 := start_on_demand])"
    using decode_patches_byte_four [of "[0, 0, 0, 5, 3, 0, 0, 0, 0]"] h2 by blast
  have t3: "decodeStopOnDemand [0, 0, 0, 6, 3, 0, 0, 0, 0] = ([], [0, 0, 0, 6, 3, 0, 0, 0, 0])"
    using decode_patches_byte_four [of "[0, 0, 0, 6, 3, 0, 0, 0, 0]"] h3 by blast
  have c1: "snd (decodeRangeRequest Request_empty [0, 0, 0, 1, 2]) = [0, 0, 0, 1, 1]"
    unfolding t1 by (simp add: snapshot_request_def)
  have c2: "snd (decodeStopOnDemand [0, 0, 0, 5, 3, 0, 0, 0, 0]) = [0, 0, 0, 5, 2, 0, 0, 0, 0]"
    unfolding t2 by (simp add: start_on_demand_def)
  have c3: "snd (decodeStopOnDemand [0, 0, 0, 6, 3, 0, 0, 0, 0]) = [0, 0, 0, 6, 3, 0, 0, 0, 0]"
    unfolding t3 by simp
  show ?thesis
    using h1 h2 h3 c1 c2 c3 by blast
qed

section \<open>Counts inside a frame\<close>

lemma advanced_trans:
  "advanced a buff r r' \<Longrightarrow> advanced b buff r' r'' \<Longrightarrow> advanced (a + b) buff r r''"
  by (auto simp add: advanced_def)

lemma advanced_weaken: "advanced a buff r r' \<Longrightarrow> b \<le> a \<Longrightarrow> advanced b buff r r'"
  by (auto simp add: advanced_def)

lemma advanced_refl: "unat (cur_index r) \<le> length buff \<Longrightarrow> advanced 0 buff r r"
  by (simp add: advanced_def)

lemma advanced_inside: "advanced n buff r r' \<Longrightarrow> unat (cur_index r') \<le> length buff"
  by (simp add: advanced_def)

lemma readPrimitive_advanced:
  assumes "length buff < 2 ^ 32" "unat (cur_index r) \<le> length buff"
  shows "advanced sz buff r (snd (readPrimitive sz buff r))"
proof (cases "unat (cur_index r) + sz \<le> length buff")
  case True
  then have "unat (cur_index r + of_nat sz) = unat (cur_index r) + sz"
    using assms(1) by (intro unat_cursor_step [where n = "length buff"])
  then show ?thesis
    using True by (simp add: readPrimitive_def advanced_def)
next
  case False
  then show ?thesis
    using assms(2) by (simp add: readPrimitive_def advanced_def)
qed

lemma readPrimitive_uint8_t_advanced:
  "length buff < 2 ^ 32 \<Longrightarrow> unat (cur_index r) \<le> length buff
     \<Longrightarrow> advanced 1 buff r (snd (readPrimitive_uint8_t buff r))"
  using readPrimitive_advanced [of buff r 1] by (simp add: readPrimitive_uint8_t_def split_beta)

lemma readPrimitive_char16_t_advanced:
  "length buff < 2 ^ 32 \<Longrightarrow> unat (cur_index r) \<le> length buff
     \<Longrightarrow> advanced 2 buff r (snd (readPrimitive_char16_t buff r))"
  using readPrimitive_advanced [of buff r 2] by (simp add: readPrimitive_char16_t_def split_beta)

lemma readPrimitive_uint32_t_advanced:
  "length buff < 2 ^ 32 \<Longrightarrow> unat (cur_index r) \<le> length buff
     \<Longrightarrow> advanced 4 buff r (snd (readPrimitive_uint32_t buff r))"
  using readPrimitive_advanced [of buff r 4] by (simp add: readPrimitive_uint32_t_def split_beta)

lemma readPrimitive_uint64_t_advanced:
  "length buff < 2 ^ 32 \<Longrightarrow> unat (cur_index r) \<le> length buff
     \<Longrightarrow> advanced 8 buff r (snd (readPrimitive_uint64_t buff r))"
  using readPrimitive_advanced [of buff r 8] by (simp add: readPrimitive_uint64_t_def split_beta)

lemma readUTF16_advanced:
  "length buff < 2 ^ 32 \<Longrightarrow> unat (cur_index r) \<le> length buff
     \<Longrightarrow> advanced 0 buff r (snd (readUTF16 n buff r))"
proof (induction n arbitrary: r)
  case 0
  then show ?case by (simp add: advanced_refl)
next
  case (Suc n)
  let ?r' = "snd (readPrimitive_char16_t buff r)"
  have 1: "advanced 2 buff r ?r'"
    using Suc.prems by (rule readPrimitive_char16_t_advanced)
  have 2: "advanced 0 buff ?r' (snd (readUTF16 n buff ?r'))"
    using Suc.prems(1) advanced_inside [OF 1] by (rule Suc.IH)
  have "advanced 0 buff r (snd (readUTF16 n buff ?r'))"
    using advanced_trans [OF 1 2] by (rule advanced_weaken) simp
  then show ?case by (simp add: split_beta Let_def)
qed

lemma readSizedUTF16_advanced:
  assumes "length buff < 2 ^ 32" "unat (cur_index r) \<le> length buff"
  shows "advanced 4 buff r (snd (readSizedUTF16 buff r))"
proof -
  let ?r' = "snd (readPrimitive_uint32_t buff r)"
  have 1: "advanced 4 buff r ?r'"
    using assms by (rule readPrimitive_uint32_t_advanced)
  have 2: "advanced 0 buff ?r' (snd (readUTF16 n buff ?r'))" for n
    using assms(1) advanced_inside [OF 1] by (rule readUTF16_advanced)
  show ?thesis
    using advanced_trans [OF 1 2] by (simp add: readSizedUTF16_def split_beta Let_def)
qed

lemma readSizedVector_loop_advanced:
  "length buff < 2 ^ 32 \<Longrightarrow> unat (cur_index r) \<le> length buff
     \<Longrightarrow> advanced 0 buff r (snd (readSizedVector_loop n buff r))"
proof (induction n arbitrary: r)
  case 0
  then show ?case by (simp add: advanced_refl)
next
  case (Suc n)
  show ?case
  proof (cases "unat (cur_index r) + 1 \<le> length buff")
    case True
    let ?r' = "snd (readPrimitive_uint8_t buff r)"
    have 1: "advanced 1 buff r ?r'"
      using Suc.prems by (rule readPrimitive_uint8_t_advanced)
    have 2: "advanced 0 buff ?r' (snd (readSizedVector_loop n buff ?r'))"
      using Suc.prems(1) advanced_inside [OF 1] by (rule Suc.IH)
    have "advanced 0 buff r (snd (readSizedVector_loop n buff ?r'))"
      using advanced_trans [OF 1 2] by (rule advanced_weaken) simp
    then show ?thesis using True by (simp add: split_beta Let_def)
  next
    case False
    then show ?thesis using Suc.prems by (simp add: advanced_refl)
  qed
qed

lemma readSizedVector_advanced:
  assumes "length buff < 2 ^ 32" "unat (cur_index r) \<le> length buff"
  shows "advanced 4 buff r (snd (readSizedVector buff r))"
proof -
  let ?r' = "snd (readPrimitive_uint32_t buff r)"
  have 1: "advanced 4 buff r ?r'"
    using assms by (rule readPrimitive_uint32_t_advanced)
  have 2: "advanced 0 buff ?r' (snd (readSizedVector_loop n buff ?r'))" for n
    using assms(1) advanced_inside [OF 1] by (rule readSizedVector_loop_advanced)
  show ?thesis
    using advanced_trans [OF 1 2] by (simp add: readSizedVector_def split_beta Let_def)
qed

lemma decodeData_attributes_advanced:
  "length buff < 2 ^ 32 \<Longrightarrow> unat (cur_index r) \<le> length buff
     \<Longrightarrow> advanced (24 * n) buff r (snd (decodeData_attributes n buff r))"
proof (induction n arbitrary: r)
  case 0
  then show ?case by (simp add: advanced_refl)
next
  case (Suc n)
  note len = Suc.prems(1)
  let ?r1 = "snd (readPrimitive_uint32_t buff r)"
  let ?r2 = "snd (readPrimitive_uint64_t buff ?r1)"
  let ?r3 = "snd (readPrimitive_uint64_t buff ?r2)"
  let ?r4 = "snd (readPrimitive_uint32_t buff ?r3)"
  let ?r5 = "snd (readSizedVector buff ?r4)"
  have 1: "advanced 4 buff r ?r1"
    using Suc.prems by (rule readPrimitive_uint32_t_advanced)
  have 2: "advanced 8 buff ?r1 ?r2"
    using len advanced_inside [OF 1] by (rule readPrimitive_uint64_t_advanced)
  have 3: "advanced 8 buff ?r2 ?r3"
    using len advanced_inside [OF 2] by (rule readPrimitive_uint64_t_advanced)
  have 4: "advanced 4 buff ?r3 ?r4"
    using len advanced_inside [OF 3] by (rule readPrimitive_uint32_t_advanced)
  have 5: "advanced 4 buff ?r4 ?r5"
    using len advanced_inside [OF 4] by (rule readSizedVector_advanced)
  have 6: "advanced (24 * n) buff ?r5 (snd (decodeData_attributes n buff ?r5))"
    using len advanced_inside [OF 5] by (rule Suc.IH)
  have "advanced (4 + 8 + 8 + 4 + 4 + 24 * n) buff r (snd (decodeData_attributes n buff ?r5))"
    by (rule advanced_trans [OF advanced_trans [OF advanced_trans [OF advanced_trans
      [OF advanced_trans [OF 1 2] 3] 4] 5] 6])
  then have "advanced (24 * Suc n) buff r (snd (decodeData_attributes n buff ?r5))"
    by (rule advanced_weaken) simp
  then show ?case by (simp add: split_beta Let_def)
qed

lemma advanced_overrun:
  "advanced n buff r r' \<Longrightarrow> length buff < unat (cur_index r) + n \<Longrightarrow> out_of_range r'"
  by (auto simp add: advanced_def)

lemma decodeSubscribe_rules_length: "length (fst (decodeSubscribe_rules n buff r)) = n"
  by (induction n arbitrary: r) (simp_all add: split_beta Let_def)

text \<open>
  Claim C4. \<open>decodeSubscribeMsg\<close> returns as many rules as the frame declares, whatever
  bytes remain. \<open>decodeDataMessage\<close> returns the empty data and ticket 0 when the
  declared attribute count, at the 24 bytes that every attribute takes at least, does
  not fit the bytes remaining; a data blob whose declared length exceeds the bytes
  remaining is cut short instead, as in the counterexample.
\<close>

theorem embedded_counts:
  "(length_arg > 4 \<and> declared_length buff + 4 = length_arg \<and>
      (message_id buff = subscription_request \<or> message_id buff = subscription_response) \<longrightarrow>
      length (decodeSubscribeMsg buff length_arg) = unat (declared_rule_count buff)) \<and>
   (frame_accepted buff data_response \<and>
      length buff < attributes_offset buff + 24 * unat (declared_attribute_count buff) \<longrightarrow>
      decodeDataMessage buff = (AliasedWorldData_empty, 0))"
proof (intro conjI impI)
  assume "length_arg > 4 \<and> declared_length buff + 4 = length_arg \<and>
      (message_id buff = subscription_request \<or> message_id buff = subscription_response)"
  then show "length (decodeSubscribeMsg buff length_arg) = unat (declared_rule_count buff)"
    by (auto simp add: decodeSubscribeMsg_def declared_length_def message_id_def
        declared_rule_count_def split_beta Let_def decodeSubscribe_rules_length)
next
  assume a0: "frame_accepted buff data_response \<and>
      length buff < attributes_offset buff + 24 * unat (declared_attribute_count buff)"
  then have a: "length buff = unat (declared_length buff + 4) \<and> message_id buff = data_response \<and>
      length buff < attributes_offset buff + 24 * unat (declared_attribute_count buff)"
    by (simp add: frame_accepted_def)
  have len: "length buff < 2 ^ 32"
    using a unat_word_less32 [of "declared_length buff + 4"] by simp
  let ?r1 = "snd (readPrimitive_uint32_t buff BuffReader_new)"
  let ?r2 = "snd (readPrimitive_uint8_t buff ?r1)"
  let ?r3 = "snd (readSizedUTF16 buff ?r2)"
  let ?r4 = "snd (readPrimitive_uint32_t buff ?r3)"
  let ?n = "fst (readPrimitive_uint32_t buff ?r4)"
  let ?start = "snd (readPrimitive_uint32_t buff ?r4)"
  let ?final = "snd (decodeData_attributes (unat ?n) buff ?start)"
  have p: "decodeDataMessage_parse buff =
      (\<lparr>AliasedWorldData.object_uri = fst (readSizedUTF16 buff ?r2),
        AliasedWorldData.attributes = fst (decodeData_attributes (unat ?n) buff ?start)\<rparr>,
       fst (readPrimitive_uint32_t buff ?r3), ?n, ?start, ?final)"
    using a by (simp add: decodeDataMessage_parse_def declared_length_def message_id_def
        split_beta Let_def)
  have 0: "unat (cur_index BuffReader_new) \<le> length buff"
    by (simp add: BuffReader_new_def)
  have 1: "advanced 4 buff BuffReader_new ?r1"
    using len 0 by (rule readPrimitive_uint32_t_advanced)
  have 2: "advanced 1 buff ?r1 ?r2"
    using len advanced_inside [OF 1] by (rule readPrimitive_uint8_t_advanced)
  have 3: "advanced 4 buff ?r2 ?r3"
    using len advanced_inside [OF 2] by (rule readSizedUTF16_advanced)
  have 4: "advanced 4 buff ?r3 ?r4"
    using len advanced_inside [OF 3] by (rule readPrimitive_uint32_t_advanced)
  have 5: "advanced 4 buff ?r4 ?start"
    using len advanced_inside [OF 4] by (rule readPrimitive_uint32_t_advanced)
  have 6: "advanced (24 * unat ?n) buff ?start ?final"
    using len advanced_inside [OF 5] by (rule decodeData_attributes_advanced)
  have "length buff < unat (cur_index ?start) + 24 * unat ?n"
    using a by (simp add: attributes_offset_def declared_attribute_count_def p)
  with 6 have "out_of_range ?final"
    by (rule advanced_overrun)
  then show "decodeDataMessage buff = (AliasedWorldData_empty, 0)"
    by (simp add: decodeDataMessage_def p outOfRange_def)
qed

theorem embedded_counts_counterexample:
  "declared_length [0, 0, 0, 5, 3, 0, 0, 0, 1] + 4 = 9 \<and>
   message_id [0, 0, 0, 5, 3, 0, 0, 0, 1] = subscription_request \<and>
   declared_rule_count [0, 0, 0, 5, 3, 0, 0, 0, 1] = 1 \<and>
   decodeSubscribeMsg [0, 0, 0, 5, 3, 0, 0, 0, 1] 9
     = [\<lparr>Rule.physical_layer = 0, txers = [], update_interval = 0\<rparr>] \<and>
   frame_accepted truncated_blob_frame data_response \<and>
   decodeDataMessage truncated_blob_frame
     = (\<lparr>AliasedWorldData.object_uri = [],
         AliasedWorldData.attributes =
           [\<lparr>name_alias = 5, creation_date = 1, expiration_date = 2, origin_alias = 6,
             AliasedAttribute.data = [1, 2, 3]\<rparr>]\<rparr>, 9)"
  by code_simp

theorem embedded_counts_witness:
  "declared_length [0, 0, 0, 5, 3, 0, 0, 0, 1] + 4 = 9 \<and>
   message_id [0, 0, 0, 5, 3, 0, 0, 0, 1] = subscription_request \<and>
   length (decodeSubscribeMsg [0, 0, 0, 5, 3, 0, 0, 0, 1] 9) = 1 \<and>
   frame_accepted [0, 0, 0, 13, 8, 0, 0, 0, 0, 0, 0, 0, 9, 0, 0, 0, 1] data_response \<and>
   length [0, 0, 0, 13, 8, 0, 0, 0, 0, 0, 0, 0, 9, 0, 0, 0, 1 :: byte]
     < attributes_offset [0, 0, 0, 13, 8, 0, 0, 0, 0, 0, 0, 0, 9, 0, 0, 0, 1] +
       24 * unat (declared_attribute_count [0, 0, 0, 13, 8, 0, 0, 0, 0, 0, 0, 0, 9, 0, 0, 0, 1]) \<and>
   decodeDataMessage [0, 0, 0, 13, 8, 0, 0, 0, 0, 0, 0, 0, 9, 0, 0, 0, 1] = (AliasedWorldData_empty, 0)"
proof -
  let ?s = "[0, 0, 0, 5, 3, 0, 0, 0, 1] :: Buffer"
  let ?d = "[0, 0, 0, 13, 8, 0, 0, 0, 0, 0, 0, 0, 9, 0, 0, 0, 1] :: Buffer"
  have h1: "(9 :: 32 word) > 4 \<and> declared_length ?s + 4 = 9 \<and>
      (message_id ?s = subscription_request \<or> message_id ?s = subscription_response)"
    by code_simp
  have n1: "unat (declared_rule_count ?s) = 1"
    by code_simp
  have h2: "frame_accepted ?d data_response \<and>
      length ?d < attributes_offset ?d + 24 * unat (declared_attribute_count ?d)"
    by code_simp
  have c1: "length (decodeSubscribeMsg ?s 9) = unat (declared_rule_count ?s)"
    using embedded_counts [of 9 ?s] h1 by blast
  have c2: "decodeDataMessage ?d = (AliasedWorldData_empty, 0)"
    using embedded_counts [of _ ?d] h2 by blast
  have k: "message_id ?s = subscription_request"
    by code_simp
  have c3: "length (decodeSubscribeMsg ?s 9) = 1"
    using c1 n1 by simp
  show ?thesis using h1 h2 k c2 c3 by blast
qed

section \<open>What the decoders return on failure\<close>







































end
